theory Spec2Isabelle
  imports Main "HOL-Library.AList" "HOL-Library.Multiset" "HOL-Library.Char_ord"
    "HOL-Library.List_Lexorder"
begin

section \<open>Data model of \<open>timetable_generator.py\<close>\<close>

text \<open>
  The three dataclasses. A naive \<open>datetime\<close> is modelled by the integer number of
  microseconds since \<open>datetime.min\<close>; comparison of two naive datetimes is comparison
  of these numbers. The fields \<open>id\<close> and \<open>department\<close> occur in two classes and
  \<open>id\<close> is a HOL constant, so they carry the class name as a prefix.
\<close>

record TimeSlot =
  day :: string
  start_time :: int
  end_time :: int

record Course =
  course_id :: string
  name :: string
  teacher :: string
  student_group :: string
  duration :: int
  course_department :: string

record Room =
  room_id :: string
  capacity :: int
  room_department :: string
  room_type :: string

text \<open>The exceptions the generator can raise; an unhandled exception is the value \<open>Inl e\<close>.\<close>

datatype error = StopIteration | KeyError | IndexError

text \<open>
  A Python \<open>dict\<close> keeps its keys in insertion order, and assigning to an existing key
  keeps the key's position: an association list, read with \<open>map_of\<close> and written with
  \<open>AList.update\<close>. The \<open>networkx\<close> graph is a dict of adjacency dicts: a node is a key,
  its neighbours are the keys of its adjacency dict, both in insertion order.
\<close>

type_synonym graph = "(string \<times> string list) list"
type_synonym entry = "Course \<times> TimeSlot \<times> Room"
type_synonym schedules = "(string \<times> entry list) list"

record TimetableGenerator =
  courses :: "Course list"
  time_slots :: "TimeSlot list"
  rooms :: "Room list"
  graph :: graph
  color_assignments :: "(string \<times> nat) list"
  room_assignments :: "(string \<times> string) list"
  teacher_schedules :: schedules
  student_schedules :: schedules

section \<open>The graph operations used by the generator\<close>

definition nodes :: "graph \<Rightarrow> string list" where
  "nodes g = map fst g"

text \<open>\<open>Graph.add_node\<close>: a node that is already present is left as it is.\<close>

definition add_node :: "string \<Rightarrow> graph \<Rightarrow> graph" where
  "add_node n g = (if map_of g n = None then g @ [(n, [])] else g)"

definition add_nbr :: "string \<Rightarrow> string \<Rightarrow> graph \<Rightarrow> graph" where
  "add_nbr u v g = AList.map_entry u (\<lambda>ns. if v \<in> set ns then ns else ns @ [v]) g"

text \<open>\<open>Graph.add_edge\<close>: both ends become nodes, then each is entered in the other's
  adjacency dict.\<close>

definition add_edge :: "string \<Rightarrow> string \<Rightarrow> graph \<Rightarrow> graph" where
  "add_edge u v g = add_nbr v u (add_nbr u v (add_node v (add_node u g)))"

text \<open>\<open>Graph.neighbors\<close> and \<open>Graph.degree\<close>. Both are only ever called on a node of
  the graph (the vertices come from \<open>graph.nodes()\<close>); a self-loop counts twice in the
  degree.\<close>

definition neighbors :: "graph \<Rightarrow> string \<Rightarrow> string list" where
  "neighbors g n = (case map_of g n of None \<Rightarrow> [] | Some ns \<Rightarrow> ns)"

definition degree :: "graph \<Rightarrow> string \<Rightarrow> nat" where
  "degree g n = length (neighbors g n) + (if n \<in> set (neighbors g n) then 1 else 0)"

definition has_edge :: "graph \<Rightarrow> string \<Rightarrow> string \<Rightarrow> bool" where
  "has_edge g u v = (v \<in> set (neighbors g u))"

section \<open>Construction: \<open>__init__\<close>, \<open>add_course\<close>, \<open>add_time_slot\<close>, \<open>add_room\<close>\<close>

definition init :: TimetableGenerator where
  "init = \<lparr>courses = [], time_slots = [], rooms = [], graph = [],
     color_assignments = [], room_assignments = [],
     teacher_schedules = [], student_schedules = []\<rparr>"

definition add_course :: "Course \<Rightarrow> TimetableGenerator \<Rightarrow> TimetableGenerator" where
  "add_course course st =
     st\<lparr>courses := courses st @ [course], graph := add_node (course_id course) (graph st)\<rparr>"

definition add_time_slot :: "TimeSlot \<Rightarrow> TimetableGenerator \<Rightarrow> TimetableGenerator" where
  "add_time_slot time_slot st = st\<lparr>time_slots := time_slots st @ [time_slot]\<rparr>"

definition add_room :: "Room \<Rightarrow> TimetableGenerator \<Rightarrow> TimetableGenerator" where
  "add_room room st = st\<lparr>rooms := rooms st @ [room]\<rparr>"

text \<open>A fresh generator loaded with courses, time slots and rooms, each in the given
  order (the driver's \<open>main\<close>).\<close>

definition load :: "Course list \<Rightarrow> TimeSlot list \<Rightarrow> Room list \<Rightarrow> TimetableGenerator" where
  "load cs ts rs = fold add_course cs (fold add_time_slot ts (fold add_room rs init))"

section \<open>\<open>build_conflict_graph\<close>\<close>

definition conflict :: "Course \<Rightarrow> Course \<Rightarrow> bool" where
  "conflict course1 course2 =
     (teacher course1 = teacher course2 \<or> student_group course1 = student_group course2)"

text \<open>The inner loop over \<open>self.courses[i+1:]\<close> and the outer loop over the courses.\<close>

fun conflict_inner :: "Course \<Rightarrow> Course list \<Rightarrow> graph \<Rightarrow> graph" where
  "conflict_inner course1 [] g = g"
| "conflict_inner course1 (course2 # rest) g =
     conflict_inner course1 rest
       (if conflict course1 course2 then add_edge (course_id course1) (course_id course2) g
        else g)"

fun conflict_outer :: "Course list \<Rightarrow> graph \<Rightarrow> graph" where
  "conflict_outer [] g = g"
| "conflict_outer (course1 # rest) g = conflict_outer rest (conflict_inner course1 rest g)"

definition build_conflict_graph :: "TimetableGenerator \<Rightarrow> TimetableGenerator" where
  "build_conflict_graph st = st\<lparr>graph := conflict_outer (courses st) (graph st)\<rparr>"

section \<open>\<open>welsh_powell_coloring\<close>\<close>

text \<open>
  \<open>sorted(nodes, key=degree, reverse=True)\<close> is a stable sort: nodes of equal degree
  keep the order of \<open>graph.nodes()\<close>. \<open>sort_key\<close> is insertion sort, stable as well,
  and descending order is ascending order of the negated key.
\<close>

definition vertices :: "graph \<Rightarrow> string list" where
  "vertices g = sort_key (\<lambda>x. - int (degree g x)) (nodes g)"

text \<open>The colours of the neighbours that are coloured already (a set in the source;
  only membership is used).\<close>

definition used_colors :: "graph \<Rightarrow> (string \<times> nat) list \<Rightarrow> string \<Rightarrow> nat list" where
  "used_colors g colors vertex =
     concat (map (\<lambda>neighbor. case map_of colors neighbor of None \<Rightarrow> [] | Some c \<Rightarrow> [c])
       (neighbors g vertex))"

text \<open>
  \<open>next(color for color in available_colors if color not in used_colors)\<close>, where
  \<open>available_colors = set(range(T))\<close>. CPython iterates a set built from \<open>range(T)\<close>
  in ascending order (an integer hashes to itself and the table never holds a collision
  for these keys), so the candidates are tried as \<open>0, 1, ..., T-1\<close>. An exhausted generator
  makes \<open>next\<close> raise \<open>StopIteration\<close>.
\<close>

definition next_color :: "nat list \<Rightarrow> nat list \<Rightarrow> error + nat" where
  "next_color available used =
     (case List.find (\<lambda>color. color \<notin> set used) available of
        None \<Rightarrow> Inl StopIteration
      | Some color \<Rightarrow> Inr color)"

fun color_loop ::
  "graph \<Rightarrow> nat \<Rightarrow> string list \<Rightarrow> (string \<times> nat) list \<Rightarrow> error + (string \<times> nat) list" where
  "color_loop g T [] colors = Inr colors"
| "color_loop g T (vertex # rest) colors =
     (case next_color [0..<T] (used_colors g colors vertex) of
        Inl e \<Rightarrow> Inl e
      | Inr color \<Rightarrow> color_loop g T rest (AList.update vertex color colors))"

definition welsh_powell_coloring :: "TimetableGenerator \<Rightarrow> error + (string \<times> nat) list" where
  "welsh_powell_coloring st =
     color_loop (graph st) (length (time_slots st)) (vertices (graph st)) []"

section \<open>\<open>assign_rooms\<close>\<close>

definition time_slots_overlap :: "TimeSlot \<Rightarrow> TimeSlot \<Rightarrow> bool" where
  "time_slots_overlap slot1 slot2 =
     (day slot1 = day slot2 \<and> start_time slot1 < end_time slot2 \<and>
      start_time slot2 < end_time slot1)"

text \<open>\<open>self.time_slots[self.color_assignments[course_id]]\<close>: a missing key raises
  \<open>KeyError\<close>, an index beyond the catalogue \<open>IndexError\<close>.\<close>

definition slot_of :: "TimetableGenerator \<Rightarrow> string \<Rightarrow> error + TimeSlot" where
  "slot_of st cid =
     (case map_of (color_assignments st) cid of
        None \<Rightarrow> Inl KeyError
      | Some idx \<Rightarrow>
          if idx < length (time_slots st) then Inr (time_slots st ! idx) else Inl IndexError)"

fun room_free ::
  "TimetableGenerator \<Rightarrow> (string \<times> string) list \<Rightarrow> string \<Rightarrow> TimeSlot \<Rightarrow> error + bool" where
  "room_free st [] rid time_slot = Inr True"
| "room_free st ((cid, assigned_room) # items) rid time_slot =
     (if assigned_room = rid then
        (case slot_of st cid of
           Inl e \<Rightarrow> Inl e
         | Inr course_time_slot \<Rightarrow>
             if time_slots_overlap time_slot course_time_slot then Inr False
             else room_free st items rid time_slot)
      else room_free st items rid time_slot)"

definition is_room_available :: "TimetableGenerator \<Rightarrow> string \<Rightarrow> TimeSlot \<Rightarrow> error + bool" where
  "is_room_available st rid time_slot = room_free st (room_assignments st) rid time_slot"

text \<open>\<open>str.upper\<close>. Only the comparison with \<open>'NAB'\<close> is made, and no character
  outside ASCII has an upper-case form among \<open>N\<close>, \<open>A\<close>, \<open>B\<close>, so mapping the ASCII
  letters decides it.\<close>

definition upper_char :: "char \<Rightarrow> char" where
  "upper_char c =
     (if 97 \<le> (of_char c :: nat) \<and> (of_char c :: nat) \<le> 122
      then char_of ((of_char c :: nat) - 32) else c)"

definition upper :: "string \<Rightarrow> string" where
  "upper s = map upper_char s"

definition department_rooms :: "TimetableGenerator \<Rightarrow> Course \<Rightarrow> Room list" where
  "department_rooms st course =
     filter (\<lambda>r. room_department r = course_department course) (rooms st)"

definition nab_rooms :: "TimetableGenerator \<Rightarrow> Room list" where
  "nab_rooms st = filter (\<lambda>r. upper (room_department r) = ''NAB'') (rooms st)"

definition other_rooms :: "TimetableGenerator \<Rightarrow> Course \<Rightarrow> Room list" where
  "other_rooms st course =
     filter (\<lambda>r. room_department r \<noteq> course_department course \<and>
                 upper (room_department r) \<noteq> ''NAB'') (rooms st)"

text \<open>One tier: the first available room is written to \<open>room_assignments\<close>; the
  boolean is the flag \<open>assigned\<close>.\<close>

fun try_rooms ::
  "TimetableGenerator \<Rightarrow> Course \<Rightarrow> TimeSlot \<Rightarrow> Room list \<Rightarrow> error + (TimetableGenerator \<times> bool)"
  where
  "try_rooms st course time_slot [] = Inr (st, False)"
| "try_rooms st course time_slot (room # rest) =
     (case is_room_available st (room_id room) time_slot of
        Inl e \<Rightarrow> Inl e
      | Inr True \<Rightarrow>
          Inr (st\<lparr>room_assignments :=
                 AList.update (course_id course) (room_id room) (room_assignments st)\<rparr>, True)
      | Inr False \<Rightarrow> try_rooms st course time_slot rest)"

text \<open>The body of the loop over the courses. The warning printed for a course left
  without a room changes no state.\<close>

definition assign_course :: "TimetableGenerator \<Rightarrow> Course \<Rightarrow> error + TimetableGenerator" where
  "assign_course st course =
     (case slot_of st (course_id course) of
        Inl e \<Rightarrow> Inl e
      | Inr time_slot \<Rightarrow>
          (case try_rooms st course time_slot (department_rooms st course) of
             Inl e \<Rightarrow> Inl e
           | Inr (st1, True) \<Rightarrow> Inr st1
           | Inr (st1, False) \<Rightarrow>
               (case try_rooms st1 course time_slot (nab_rooms st1) of
                  Inl e \<Rightarrow> Inl e
                | Inr (st2, True) \<Rightarrow> Inr st2
                | Inr (st2, False) \<Rightarrow>
                    (case try_rooms st2 course time_slot (other_rooms st2 course) of
                       Inl e \<Rightarrow> Inl e
                     | Inr (st3, _) \<Rightarrow> Inr st3))))"

fun assign_loop :: "TimetableGenerator \<Rightarrow> Course list \<Rightarrow> error + TimetableGenerator" where
  "assign_loop st [] = Inr st"
| "assign_loop st (course # rest) =
     (case assign_course st course of Inl e \<Rightarrow> Inl e | Inr st' \<Rightarrow> assign_loop st' rest)"

definition assign_rooms :: "TimetableGenerator \<Rightarrow> error + TimetableGenerator" where
  "assign_rooms st = assign_loop st (courses st)"

section \<open>\<open>optimize_schedules\<close>\<close>

text \<open>
  \<open>next(r for r in self.rooms if r.id == self.room_assignments[course.id])\<close>. The
  condition, and with it the dictionary lookup, is evaluated once per room tried: with no
  room left the generator is exhausted (\<open>StopIteration\<close>), and a missing key raises
  \<open>KeyError\<close> only when there is a room to test.
\<close>

fun lookup_room :: "(string \<times> string) list \<Rightarrow> string \<Rightarrow> Room list \<Rightarrow> error + Room" where
  "lookup_room ra cid [] = Inl StopIteration"
| "lookup_room ra cid (r # rest) =
     (case map_of ra cid of
        None \<Rightarrow> Inl KeyError
      | Some rid \<Rightarrow> if room_id r = rid then Inr r else lookup_room ra cid rest)"

text \<open>\<open>schedules[key].append(x)\<close> on a \<open>defaultdict(list)\<close>.\<close>

definition append_entry :: "string \<Rightarrow> entry \<Rightarrow> schedules \<Rightarrow> schedules" where
  "append_entry key x sched =
     (case map_of sched key of
        None \<Rightarrow> sched @ [(key, [x])]
      | Some xs \<Rightarrow> AList.update key (xs @ [x]) sched)"

fun collect_loop :: "TimetableGenerator \<Rightarrow> Course list \<Rightarrow> error + TimetableGenerator" where
  "collect_loop st [] = Inr st"
| "collect_loop st (course # rest) =
     (case map_of (room_assignments st) (course_id course) of
        None \<Rightarrow> collect_loop st rest
      | Some rid \<Rightarrow>
          (case slot_of st (course_id course) of
             Inl e \<Rightarrow> Inl e
           | Inr time_slot \<Rightarrow>
               (case lookup_room (room_assignments st) (course_id course) (rooms st) of
                  Inl e \<Rightarrow> Inl e
                | Inr room \<Rightarrow>
                    collect_loop
                      (st\<lparr>teacher_schedules :=
                            append_entry (teacher course) (course, time_slot, room)
                              (teacher_schedules st),
                          student_schedules :=
                            append_entry (student_group course) (course, time_slot, room)
                              (student_schedules st)\<rparr>)
                      rest)))"

text \<open>\<open>list.sort(key=lambda x: x[1].start_time)\<close>: a stable sort on the start time
  alone.\<close>

definition entry_start :: "entry \<Rightarrow> int" where
  "entry_start x = start_time (fst (snd x))"

definition sort_schedules :: "schedules \<Rightarrow> schedules" where
  "sort_schedules sched = map (\<lambda>(key, xs). (key, sort_key entry_start xs)) sched"

definition optimize_schedules :: "TimetableGenerator \<Rightarrow> error + TimetableGenerator" where
  "optimize_schedules st =
     (case collect_loop st (courses st) of
        Inl e \<Rightarrow> Inl e
      | Inr st' \<Rightarrow>
          Inr (st'\<lparr>teacher_schedules := sort_schedules (teacher_schedules st'),
                   student_schedules := sort_schedules (student_schedules st')\<rparr>))"

section \<open>\<open>_format_timetable\<close> and \<open>generate_timetable\<close>\<close>

definition two_digits :: "nat \<Rightarrow> string" where
  "two_digits n = [char_of (48 + n div 10), char_of (48 + n mod 10)]"

text \<open>\<open>strftime('%H:%M')\<close> of a datetime given in microseconds.\<close>

definition strftime_HM :: "int \<Rightarrow> string" where
  "strftime_HM t =
     two_digits (nat ((t div 3600000000) mod 24)) @ '':'' @
     two_digits (nat ((t div 60000000) mod 60))"

definition slot_text :: "TimeSlot \<Rightarrow> string" where
  "slot_text ts = day ts @ '' '' @ strftime_HM (start_time ts) @ ''-'' @ strftime_HM (end_time ts)"

fun course_lines :: "TimetableGenerator \<Rightarrow> Course list \<Rightarrow> error + string list" where
  "course_lines st [] = Inr []"
| "course_lines st (course # rest) =
     (case slot_of st (course_id course) of
        Inl e \<Rightarrow> Inl e
      | Inr time_slot \<Rightarrow>
          (case lookup_room (room_assignments st) (course_id course) (rooms st) of
             Inl e \<Rightarrow> Inl e
           | Inr room \<Rightarrow>
               (case course_lines st rest of
                  Inl e \<Rightarrow> Inl e
                | Inr ls \<Rightarrow>
                    Inr ((name course @ '': '' @ slot_text time_slot @ '' in Room '' @
                          room_id room) # ls))))"

definition schedule_lines :: "schedules \<Rightarrow> string list" where
  "schedule_lines sched =
     concat (map (\<lambda>(key, xs).
         (CHR 0x0A # key @ '':'') #
         map (\<lambda>(course, time_slot, room).
                ''  '' @ slot_text time_slot @ '': '' @ name course @ '' in Room '' @ room_id room)
           xs)
       sched)"

fun join :: "string \<Rightarrow> string list \<Rightarrow> string" where
  "join sep [] = []"
| "join sep [x] = x"
| "join sep (x # y # ys) = x @ sep @ join sep (y # ys)"

definition format_timetable :: "TimetableGenerator \<Rightarrow> error + string" where
  "format_timetable st =
     (case course_lines st (courses st) of
        Inl e \<Rightarrow> Inl e
      | Inr ls \<Rightarrow>
          Inr (join [CHR 0x0A]
            (''Course Assignments:'' # ls @
             (CHR 0x0A # ''Teacher Schedules:'') # schedule_lines (teacher_schedules st) @
             (CHR 0x0A # ''Student Group Schedules:'') #
               schedule_lines (student_schedules st))))"

text \<open>The pipeline. The result is the generator's final state together with the
  formatted text.\<close>

definition generate_timetable :: "TimetableGenerator \<Rightarrow> error + (TimetableGenerator \<times> string)"
  where
  "generate_timetable st =
     (let st1 = build_conflict_graph st in
      case welsh_powell_coloring st1 of
        Inl e \<Rightarrow> Inl e
      | Inr colors \<Rightarrow>
          (case assign_rooms (st1\<lparr>color_assignments := colors\<rparr>) of
             Inl e \<Rightarrow> Inl e
           | Inr st3 \<Rightarrow>
               (case optimize_schedules st3 of
                  Inl e \<Rightarrow> Inl e
                | Inr st4 \<Rightarrow>
                    (case format_timetable st4 of
                       Inl e \<Rightarrow> Inl e
                     | Inr text \<Rightarrow> Inr (st4, text)))))"

section \<open>Auxiliary notions for the statements\<close>

text \<open>The pairs \<open>(x, y)\<close> of a list with \<open>x\<close> at an earlier position than \<open>y\<close>:
  the pairs the two nested loops of \<open>build_conflict_graph\<close> visit.\<close>

fun later_pairs :: "'a list \<Rightarrow> ('a \<times> 'a) set" where
  "later_pairs [] = {}"
| "later_pairs (x # xs) = {(x, y) | y. y \<in> set xs} \<union> later_pairs xs"

text \<open>Adjacent vertices that are both coloured have different colours.\<close>

definition proper :: "graph \<Rightarrow> (string \<times> nat) list \<Rightarrow> bool" where
  "proper g c = (\<forall>x y a b. has_edge g x y \<and> x \<noteq> y \<and> map_of c x = Some a \<and> map_of c y = Some b
      \<longrightarrow> a \<noteq> b)"

text \<open>The rooms in the order the three tiers scan them, and the room the scan settles on:
  the first one that is available.\<close>

definition tiers :: "TimetableGenerator \<Rightarrow> Course \<Rightarrow> Room list" where
  "tiers st course = department_rooms st course @ nab_rooms st @ other_rooms st course"

definition chosen_room :: "TimetableGenerator \<Rightarrow> Course \<Rightarrow> TimeSlot \<Rightarrow> Room option" where
  "chosen_room st course time_slot =
     List.find (\<lambda>r. is_room_available st (room_id r) time_slot = Inr True) (tiers st course)"

text \<open>Every course that holds a room has a time slot.\<close>

definition keys_ok :: "TimetableGenerator \<Rightarrow> bool" where
  "keys_ok st = (\<forall>k r. map_of (room_assignments st) k = Some r \<longrightarrow> (\<exists>s. slot_of st k = Inr s))"

text \<open>No room holds two courses, under different ids, at overlapping slots.\<close>

definition rooms_disjoint :: "TimetableGenerator \<Rightarrow> bool" where
  "rooms_disjoint st =
     (\<forall>k1 k2 r s1 s2. k1 \<noteq> k2 \<and> map_of (room_assignments st) k1 = Some r \<and>
        map_of (room_assignments st) k2 = Some r \<and> slot_of st k1 = Inr s1 \<and>
        slot_of st k2 = Inr s2 \<longrightarrow> \<not> time_slots_overlap s1 s2)"

text \<open>What holds of the room assignment while \<open>assign_rooms\<close> runs.\<close>

definition alloc_inv :: "TimetableGenerator \<Rightarrow> bool" where
  "alloc_inv st =
     (distinct (map fst (room_assignments st)) \<and> keys_ok st \<and> rooms_disjoint st \<and>
      (\<forall>k r. map_of (room_assignments st) k = Some r \<longrightarrow> r \<in> room_id ` set (rooms st)))"

text \<open>The entry \<open>optimize_schedules\<close> appends for a course that holds a room, and the
  entries of a course list in its order.\<close>

definition entry_of :: "TimetableGenerator \<Rightarrow> Course \<Rightarrow> entry option" where
  "entry_of st course =
     (case map_of (room_assignments st) (course_id course) of
        None \<Rightarrow> None
      | Some rid \<Rightarrow>
          (case slot_of st (course_id course) of
             Inl e \<Rightarrow> None
           | Inr time_slot \<Rightarrow>
               (case lookup_room (room_assignments st) (course_id course) (rooms st) of
                  Inl e \<Rightarrow> None
                | Inr room \<Rightarrow> Some (course, time_slot, room))))"

definition entries_of :: "TimetableGenerator \<Rightarrow> Course list \<Rightarrow> entry list" where
  "entries_of st cs = List.map_filter (entry_of st) cs"

text \<open>
  The order claim C9 words for a schedule: weekdays in the fixed order Monday to Friday,
  then the start time, then the course id (strings compared as Python compares them,
  character by character). This is the claim's order, not the code's.
\<close>

definition weekday_index :: "string \<Rightarrow> nat" where
  "weekday_index d =
     (if d = ''Monday'' then 0 else if d = ''Tuesday'' then 1 else if d = ''Wednesday'' then 2
      else if d = ''Thursday'' then 3 else if d = ''Friday'' then 4 else 5)"

definition spec_entry_le :: "entry \<Rightarrow> entry \<Rightarrow> bool" where
  "spec_entry_le a b =
     (weekday_index (day (fst (snd a))) < weekday_index (day (fst (snd b))) \<or>
      (weekday_index (day (fst (snd a))) = weekday_index (day (fst (snd b))) \<and>
       (start_time (fst (snd a)) < start_time (fst (snd b)) \<or>
        (start_time (fst (snd a)) = start_time (fst (snd b)) \<and>
         course_id (fst a) \<le> course_id (fst b)))))"

definition spec_sorted :: "entry list \<Rightarrow> bool" where
  "spec_sorted sched = sorted_wrt spec_entry_le sched"

text \<open>The schedule of a teacher in the result of a run.\<close>

definition teacher_schedule_of ::
  "error + (TimetableGenerator \<times> string) \<Rightarrow> string \<Rightarrow> entry list option" where
  "teacher_schedule_of result t =
     (case result of Inl e \<Rightarrow> None | Inr (st, text) \<Rightarrow> map_of (teacher_schedules st) t)"

text \<open>Inputs of the example scenarios: a course, a slot and a room, with the fields
  the pipeline does not read filled in. The times of day used are 08:00, 09:00 and 10:00 of
  the first day, in microseconds: 28800000000, 32400000000 and 36000000000.\<close>

abbreviation mk_course :: "string \<Rightarrow> string \<Rightarrow> string \<Rightarrow> string \<Rightarrow> Course" where
  "mk_course i t g d \<equiv>
     \<lparr>course_id = i, name = i, teacher = t, student_group = g, duration = 60,
      course_department = d\<rparr>"

abbreviation mk_slot :: "string \<Rightarrow> int \<Rightarrow> int \<Rightarrow> TimeSlot" where
  "mk_slot d s e \<equiv> \<lparr>day = d, start_time = s, end_time = e\<rparr>"

abbreviation mk_room :: "string \<Rightarrow> string \<Rightarrow> Room" where
  "mk_room i d \<equiv> \<lparr>room_id = i, capacity = 50, room_department = d, room_type = ''LH''\<rparr>"

text \<open>The state \<open>generate_timetable\<close> hands to \<open>assign_rooms\<close>: the loaded generator
  with its conflict graph built and the colour assignment stored.\<close>

abbreviation colored ::
  "Course list \<Rightarrow> TimeSlot list \<Rightarrow> Room list \<Rightarrow> (string \<times> nat) list \<Rightarrow> TimetableGenerator" where
  "colored cs ts rs colors \<equiv> (build_conflict_graph (load cs ts rs))\<lparr>color_assignments := colors\<rparr>"

section \<open>The conflict graph\<close>

lemma map_of_None_nodes: "(map_of g n = None) = (n \<notin> set (nodes g))"
  by (simp add: nodes_def map_of_eq_None_iff)

lemma nodes_add_node:
  "nodes (add_node n g) = (if n \<in> set (nodes g) then nodes g else nodes g @ [n])"
  by (simp add: add_node_def map_of_None_nodes) (simp add: nodes_def)

lemma neighbors_add_node: "neighbors (add_node n g) x = neighbors g x"
  by (auto simp: add_node_def neighbors_def map_of_append map_add_def split: option.splits)

lemma map_fst_map_entry: "map fst (AList.map_entry k f xs) = map fst xs"
  by (induct xs) auto

lemma nodes_add_nbr: "nodes (add_nbr u v g) = nodes g"
  by (simp add: add_nbr_def nodes_def map_fst_map_entry)

lemma neighbors_add_nbr:
  "neighbors (add_nbr u v g) x =
     (if x = u \<and> v \<notin> set (neighbors g u) \<and> u \<in> set (nodes g)
      then neighbors g u @ [v] else neighbors g x)"
proof (cases "map_of g u")
  case None
  then have "u \<notin> set (nodes g)"
    by (simp add: map_of_None_nodes)
  with None show ?thesis
    by (simp add: add_nbr_def neighbors_def map_of_map_entry)
next
  case (Some ns)
  then have "u \<in> set (nodes g)"
    using map_of_None_nodes [of g u] by simp
  with Some show ?thesis
    by (simp add: add_nbr_def neighbors_def map_of_map_entry)
qed

lemma set_neighbors_add_nbr:
  "u \<in> set (nodes g) \<Longrightarrow>
   set (neighbors (add_nbr u v g) x) = set (neighbors g x) \<union> (if x = u then {v} else {})"
  by (auto simp: neighbors_add_nbr)

lemma set_nodes_add_edge: "set (nodes (add_edge u v g)) = set (nodes g) \<union> {u, v}"
  by (auto simp: add_edge_def nodes_add_nbr nodes_add_node)

lemma nodes_add_edge:
  "u \<in> set (nodes g) \<Longrightarrow> v \<in> set (nodes g) \<Longrightarrow> nodes (add_edge u v g) = nodes g"
  by (simp add: add_edge_def nodes_add_nbr nodes_add_node)

lemma has_edge_add_edge:
  "has_edge (add_edge u v g) x y =
     (has_edge g x y \<or> (x = u \<and> y = v) \<or> (x = v \<and> y = u))"
  by (auto simp: has_edge_def add_edge_def set_neighbors_add_nbr nodes_add_nbr nodes_add_node
      neighbors_add_node)

lemma has_edge_conflict_inner:
  "has_edge (conflict_inner c1 cs g) x y =
     (has_edge g x y \<or>
      (\<exists>c2 \<in> set cs. conflict c1 c2 \<and>
         ((x = course_id c1 \<and> y = course_id c2) \<or> (x = course_id c2 \<and> y = course_id c1))))"
  by (induction cs arbitrary: g) (auto simp: has_edge_add_edge)

lemma has_edge_conflict_outer:
  "has_edge (conflict_outer cs g) x y =
     (has_edge g x y \<or>
      (\<exists>(a, b) \<in> later_pairs cs. conflict a b \<and>
         ((x = course_id a \<and> y = course_id b) \<or> (x = course_id b \<and> y = course_id a))))"
  by (induction cs arbitrary: g) (auto simp: has_edge_conflict_inner)

lemma nodes_conflict_inner:
  "course_id c1 \<in> set (nodes g) \<Longrightarrow> course_id ` set cs \<subseteq> set (nodes g) \<Longrightarrow>
   nodes (conflict_inner c1 cs g) = nodes g"
  by (induction cs arbitrary: g) (auto simp: nodes_add_edge)

lemma nodes_conflict_outer:
  "course_id ` set cs \<subseteq> set (nodes g) \<Longrightarrow> nodes (conflict_outer cs g) = nodes g"
  by (induction cs arbitrary: g) (auto simp: nodes_conflict_inner)

lemma later_pairs_mem: "(a, b) \<in> later_pairs xs \<Longrightarrow> a \<in> set xs \<and> b \<in> set xs"
  by (induction xs) auto

lemma later_pairs_total:
  "a \<in> set xs \<Longrightarrow> b \<in> set xs \<Longrightarrow> a \<noteq> b \<Longrightarrow>
   (a, b) \<in> later_pairs xs \<or> (b, a) \<in> later_pairs xs"
  by (induction xs) auto

lemma later_pairs_distinct:
  "distinct (map f xs) \<Longrightarrow> (a, b) \<in> later_pairs xs \<Longrightarrow> f a \<noteq> f b"
  by (induction xs) (auto dest: later_pairs_mem)

lemma fold_add_room: "fold add_room rs st = st\<lparr>rooms := rooms st @ rs\<rparr>"
  by (induction rs arbitrary: st) (simp_all add: add_room_def)

lemma fold_add_time_slot: "fold add_time_slot ts st = st\<lparr>time_slots := time_slots st @ ts\<rparr>"
  by (induction ts arbitrary: st) (simp_all add: add_time_slot_def)

lemma fold_add_course:
  "fold add_course cs st =
     st\<lparr>courses := courses st @ cs,
        graph := fold (\<lambda>c. add_node (course_id c)) cs (graph st)\<rparr>"
  by (induction cs arbitrary: st) (simp_all add: add_course_def)

lemma load_eq:
  "load cs ts rs =
     \<lparr>courses = cs, time_slots = ts, rooms = rs,
      graph = fold (\<lambda>c. add_node (course_id c)) cs [],
      color_assignments = [], room_assignments = [],
      teacher_schedules = [], student_schedules = []\<rparr>"
  by (simp add: load_def fold_add_course fold_add_time_slot fold_add_room init_def)

lemma neighbors_fold_add_node:
  "neighbors (fold (\<lambda>c. add_node (course_id c)) cs g) x = neighbors g x"
  by (induction cs arbitrary: g) (simp_all add: neighbors_add_node)

lemma set_nodes_fold_add_node:
  "set (nodes (fold (\<lambda>c. add_node (course_id c)) cs g)) = set (nodes g) \<union> course_id ` set cs"
  by (induction cs arbitrary: g) (auto simp: nodes_add_node)

lemma nodes_fold_add_node:
  "distinct (map course_id cs) \<Longrightarrow> course_id ` set cs \<inter> set (nodes g) = {} \<Longrightarrow>
   nodes (fold (\<lambda>c. add_node (course_id c)) cs g) = nodes g @ map course_id cs"
  by (induction cs arbitrary: g) (auto simp: nodes_add_node)


lemma has_edge_load: "has_edge (graph (load cs ts rs)) x y = False"
  by (simp add: load_eq has_edge_def neighbors_fold_add_node) (simp add: neighbors_def)

lemma courses_build [simp]: "courses (build_conflict_graph st) = courses st"
  and time_slots_build [simp]: "time_slots (build_conflict_graph st) = time_slots st"
  and rooms_build [simp]: "rooms (build_conflict_graph st) = rooms st"
  by (simp_all add: build_conflict_graph_def)

lemma conflict_sym: "conflict a b = conflict b a"
  by (auto simp: conflict_def)

lemma has_edge_built:
  "has_edge (graph (build_conflict_graph (load cs ts rs))) x y =
     (\<exists>(a, b) \<in> later_pairs cs. conflict a b \<and>
         ((x = course_id a \<and> y = course_id b) \<or> (x = course_id b \<and> y = course_id a)))"
  by (simp add: build_conflict_graph_def has_edge_conflict_outer has_edge_load)
     (simp add: load_eq)

lemma has_edge_built_sym:
  "has_edge (graph (build_conflict_graph (load cs ts rs))) x y \<Longrightarrow>
   has_edge (graph (build_conflict_graph (load cs ts rs))) y x"
  unfolding has_edge_built by blast

lemma has_edge_built_conflict:
  assumes "a \<in> set cs" "b \<in> set cs" "course_id a \<noteq> course_id b" "conflict a b"
  shows "has_edge (graph (build_conflict_graph (load cs ts rs))) (course_id a) (course_id b)"
proof -
  from assms have "a \<noteq> b" by auto
  with assms have "(a, b) \<in> later_pairs cs \<or> (b, a) \<in> later_pairs cs"
    by (simp add: later_pairs_total)
  with assms(4) conflict_sym [of a b] show ?thesis
    unfolding has_edge_built by blast
qed

lemma has_edge_built_distinct:
  assumes "distinct (map course_id cs)"
  shows "has_edge (graph (build_conflict_graph (load cs ts rs))) x y =
     (\<exists>a \<in> set cs. \<exists>b \<in> set cs. a \<noteq> b \<and> conflict a b \<and>
         x = course_id a \<and> y = course_id b)"
proof
  assume "has_edge (graph (build_conflict_graph (load cs ts rs))) x y"
  then obtain a b where ab: "(a, b) \<in> later_pairs cs" "conflict a b"
    "(x = course_id a \<and> y = course_id b) \<or> (x = course_id b \<and> y = course_id a)"
    unfolding has_edge_built by blast
  from ab(1) have mem: "a \<in> set cs" "b \<in> set cs"
    by (auto dest: later_pairs_mem)
  from assms ab(1) have "course_id a \<noteq> course_id b"
    by (rule later_pairs_distinct)
  then have "a \<noteq> b" by auto
  with ab mem conflict_sym [of a b]
  show "\<exists>a \<in> set cs. \<exists>b \<in> set cs. a \<noteq> b \<and> conflict a b \<and>
         x = course_id a \<and> y = course_id b"
    by metis
next
  assume "\<exists>a \<in> set cs. \<exists>b \<in> set cs. a \<noteq> b \<and> conflict a b \<and>
         x = course_id a \<and> y = course_id b"
  then obtain a b where ab: "a \<in> set cs" "b \<in> set cs" "a \<noteq> b" "conflict a b"
    "x = course_id a" "y = course_id b"
    by blast
  from ab(1-3) assms have "course_id a \<noteq> course_id b"
    by (auto simp: distinct_map inj_on_def)
  with ab show "has_edge (graph (build_conflict_graph (load cs ts rs))) x y"
    by (simp add: has_edge_built_conflict)
qed

lemma nodes_built:
  "distinct (map course_id cs) \<Longrightarrow>
   nodes (graph (build_conflict_graph (load cs ts rs))) = map course_id cs"
proof -
  assume d: "distinct (map course_id cs)"
  have n: "nodes (fold (\<lambda>c. add_node (course_id c)) cs []) = map course_id cs"
    using nodes_fold_add_node [OF d, of "[]"] by (simp add: nodes_def)
  show ?thesis
    by (simp add: build_conflict_graph_def load_eq nodes_conflict_outer n)
qed

lemma set_nodes_built:
  "set (nodes (graph (build_conflict_graph (load cs ts rs)))) = course_id ` set cs"
proof -
  have n: "set (nodes (fold (\<lambda>c. add_node (course_id c)) cs [])) = course_id ` set cs"
    using set_nodes_fold_add_node [of cs "[]"] by (simp add: nodes_def)
  show ?thesis
    by (simp add: build_conflict_graph_def load_eq nodes_conflict_outer n)
qed

text \<open>
  Claim C5. With unique course ids, the graph built by \<open>build_conflict_graph\<close> on a
  freshly loaded generator has an edge between the ids of two distinct courses exactly when
  their teachers are equal or their student groups are equal; every edge is undirected and
  joins two course ids; no node has a self-loop; and registering the same courses in another
  order gives the same edges.
\<close>

theorem conflict_graph_exact:
  assumes "distinct (map course_id cs)"
  shows "(\<forall>c1 \<in> set cs. \<forall>c2 \<in> set cs. c1 \<noteq> c2 \<longrightarrow>
            has_edge (graph (build_conflict_graph (load cs ts rs))) (course_id c1) (course_id c2) =
              (teacher c1 = teacher c2 \<or> student_group c1 = student_group c2)) \<and>
         (\<forall>u v. has_edge (graph (build_conflict_graph (load cs ts rs))) u v \<longrightarrow>
            has_edge (graph (build_conflict_graph (load cs ts rs))) v u \<and>
            u \<in> course_id ` set cs \<and> v \<in> course_id ` set cs) \<and>
         (\<forall>u. \<not> has_edge (graph (build_conflict_graph (load cs ts rs))) u u) \<and>
         (\<forall>cs'. mset cs' = mset cs \<longrightarrow>
            (\<forall>u v. has_edge (graph (build_conflict_graph (load cs' ts rs))) u v =
                   has_edge (graph (build_conflict_graph (load cs ts rs))) u v))"
proof (intro conjI ballI allI impI)
  fix c1 c2
  assume c: "c1 \<in> set cs" "c2 \<in> set cs" "c1 \<noteq> c2"
  from assms have inj: "inj_on course_id (set cs)"
    by (simp add: distinct_map)
  have "has_edge (graph (build_conflict_graph (load cs ts rs))) (course_id c1) (course_id c2) =
          conflict c1 c2"
    unfolding has_edge_built_distinct [OF assms]
    using c inj by (auto simp: inj_on_def)
  then show "has_edge (graph (build_conflict_graph (load cs ts rs))) (course_id c1) (course_id c2) =
          (teacher c1 = teacher c2 \<or> student_group c1 = student_group c2)"
    by (simp add: conflict_def)
next
  fix u v
  assume e: "has_edge (graph (build_conflict_graph (load cs ts rs))) u v"
  then show "has_edge (graph (build_conflict_graph (load cs ts rs))) v u"
    by (rule has_edge_built_sym)
  from e show "u \<in> course_id ` set cs" "v \<in> course_id ` set cs"
    unfolding has_edge_built_distinct [OF assms] by auto
next
  fix u
  from assms have inj: "inj_on course_id (set cs)"
    by (simp add: distinct_map)
  then show "\<not> has_edge (graph (build_conflict_graph (load cs ts rs))) u u"
    unfolding has_edge_built_distinct [OF assms] by (auto simp: inj_on_def)
next
  fix cs' u v
  assume m: "mset cs' = mset cs"
  then have s: "set cs' = set cs"
    by (rule mset_eq_setD)
  from m have "mset (map course_id cs') = mset (map course_id cs)"
    by simp
  with assms have d: "distinct (map course_id cs')"
    by (metis mset_eq_imp_distinct_iff)
  show "has_edge (graph (build_conflict_graph (load cs' ts rs))) u v =
        has_edge (graph (build_conflict_graph (load cs ts rs))) u v"
    unfolding has_edge_built_distinct [OF assms] has_edge_built_distinct [OF d] s ..
qed

theorem conflict_graph_exact_witness:
  "distinct (map course_id
      [mk_course ''A'' ''T1'' ''G1'' ''CS'', mk_course ''B'' ''T1'' ''G2'' ''CS'',
       mk_course ''C'' ''T2'' ''G3'' ''EE'']) \<and>
   has_edge (graph (build_conflict_graph (load
      [mk_course ''A'' ''T1'' ''G1'' ''CS'', mk_course ''B'' ''T1'' ''G2'' ''CS'',
       mk_course ''C'' ''T2'' ''G3'' ''EE''] [] []))) ''A'' ''B'' \<and>
   \<not> has_edge (graph (build_conflict_graph (load
      [mk_course ''A'' ''T1'' ''G1'' ''CS'', mk_course ''B'' ''T1'' ''G2'' ''CS'',
       mk_course ''C'' ''T2'' ''G3'' ''EE''] [] []))) ''A'' ''C'' \<and>
   \<not> has_edge (graph (build_conflict_graph (load
      [mk_course ''A'' ''T1'' ''G1'' ''CS'', mk_course ''B'' ''T1'' ''G2'' ''CS'',
       mk_course ''C'' ''T2'' ''G3'' ''EE''] [] []))) ''A'' ''A'' \<and>
   has_edge (graph (build_conflict_graph (load
      [mk_course ''C'' ''T2'' ''G3'' ''EE'', mk_course ''B'' ''T1'' ''G2'' ''CS'',
       mk_course ''A'' ''T1'' ''G1'' ''CS''] [] []))) ''A'' ''B''"
  (is "distinct (map course_id ?cs) \<and> has_edge ?G ''A'' ''B'' \<and> _ \<and> _ \<and> has_edge ?G' _ _")
proof -
  have d: "distinct (map course_id ?cs)" by simp
  note t = conflict_graph_exact [OF d, of "[]" "[]"]
  from t have pairs: "\<forall>c1 \<in> set ?cs. \<forall>c2 \<in> set ?cs. c1 \<noteq> c2 \<longrightarrow>
      has_edge ?G (course_id c1) (course_id c2) =
        (teacher c1 = teacher c2 \<or> student_group c1 = student_group c2)"
    by (rule conjunct1)
  from t have loops: "\<forall>u. \<not> has_edge ?G u u"
    by blast
  from t have perm: "\<forall>cs'. mset cs' = mset ?cs \<longrightarrow>
      (\<forall>u v. has_edge (graph (build_conflict_graph (load cs' [] []))) u v = has_edge ?G u v)"
    by blast
  from pairs have ab: "has_edge ?G ''A'' ''B''"
    by simp
  from pairs have ac: "\<not> has_edge ?G ''A'' ''C''"
    by simp
  have "mset [mk_course ''C'' ''T2'' ''G3'' ''EE'', mk_course ''B'' ''T1'' ''G2'' ''CS'',
       mk_course ''A'' ''T1'' ''G1'' ''CS''] = mset ?cs"
    by (simp add: add_mset_commute)
  with perm ab have ab': "has_edge ?G' ''A'' ''B''"
    by blast
  from d ab ac loops ab' show ?thesis
    by blast
qed

section \<open>The colouring stage\<close>

subsection \<open>Order of processing\<close>

lemma filter_before:
  "filter P xs = as @ a # bs @ b # cs \<Longrightarrow> \<exists>as' bs' cs'. xs = as' @ a # bs' @ b # cs'"
proof (induction xs arbitrary: as)
  case Nil
  then show ?case by simp
next
  case (Cons x xs)
  show ?case
  proof (cases "P x")
    case False
    with Cons.prems have "filter P xs = as @ a # bs @ b # cs" by simp
    from Cons.IH [OF this] obtain as' bs' cs' where "xs = as' @ a # bs' @ b # cs'" by blast
    then have "x # xs = (x # as') @ a # bs' @ b # cs'" by simp
    then show ?thesis by blast
  next
    case True
    show ?thesis
    proof (cases as)
      case Nil
      with True Cons.prems have "x = a" and "filter P xs = bs @ b # cs" by simp_all
      then have "b \<in> set (filter P xs)" by simp
      then have "b \<in> set xs" by simp
      then obtain ys zs where "xs = ys @ b # zs" by (auto simp: in_set_conv_decomp)
      with \<open>x = a\<close> have "x # xs = [] @ a # ys @ b # zs" by simp
      then show ?thesis by blast
    next
      case (Cons a0 as0)
      with True Cons.prems have "filter P xs = as0 @ a # bs @ b # cs" by simp
      from Cons.IH [OF this] obtain as' bs' cs' where "xs = as' @ a # bs' @ b # cs'" by blast
      then have "x # xs = (x # as') @ a # bs' @ b # cs'" by simp
      then show ?thesis by blast
    qed
  qed
qed

lemma sort_key_order:
  fixes f :: "'a \<Rightarrow> int"
  assumes "sort_key f xs = as @ a # bs @ b # cs"
  shows "f a \<le> f b" and "f a = f b \<Longrightarrow> \<exists>as' bs' cs'. xs = as' @ a # bs' @ b # cs'"
proof -
  have "sorted (map f (sort_key f xs))" by (rule sorted_sort_key)
  with assms show "f a \<le> f b" by (simp add: sorted_append)
  assume eq: "f a = f b"
  have "filter (\<lambda>y. f y = f b) xs = filter (\<lambda>y. f y = f b) (sort_key f xs)"
    by (simp add: sort_key_stable)
  also have "\<dots> = filter (\<lambda>y. f y = f b) as @ a # filter (\<lambda>y. f y = f b) bs @ b #
      filter (\<lambda>y. f y = f b) cs"
    using eq by (simp add: assms)
  finally show "\<exists>as' bs' cs'. xs = as' @ a # bs' @ b # cs'"
    by (rule filter_before)
qed

lemma vertices_order:
  assumes "vertices g = as @ a # bs @ b # cs"
  shows "degree g b \<le> degree g a"
    and "degree g a = degree g b \<Longrightarrow> \<exists>as' bs' cs'. nodes g = as' @ a # bs' @ b # cs'"
  using sort_key_order [OF assms [unfolded vertices_def]] by simp_all

lemma set_vertices [simp]: "set (vertices g) = set (nodes g)"
  by (simp add: vertices_def)

lemma distinct_vertices [simp]: "distinct (vertices g) = distinct (nodes g)"
  by (simp add: vertices_def)

lemma mset_vertices: "mset (vertices g) = mset (nodes g)"
  by (simp add: vertices_def)

subsection \<open>The colour chosen for one vertex\<close>

lemma set_used_colors:
  "set (used_colors g colors v) = {k. \<exists>n. has_edge g v n \<and> map_of colors n = Some k}"
  by (auto simp: used_colors_def has_edge_def split: option.splits)

lemma next_color_Inr:
  "next_color [0..<T] used = Inr k \<longleftrightarrow> k < T \<and> k \<notin> set used \<and> (\<forall>j<k. j \<in> set used)"
proof -
  have "next_color [0..<T] used = Inr k \<longleftrightarrow> List.find (\<lambda>c. c \<notin> set used) [0..<T] = Some k"
    by (simp add: next_color_def split: option.splits)
  also have "\<dots> \<longleftrightarrow> k < T \<and> k \<notin> set used \<and> (\<forall>j<k. j \<in> set used)"
    by (auto simp: find_Some_iff)
  finally show ?thesis .
qed

lemma next_color_Inl:
  "next_color [0..<T] used = Inl e \<longleftrightarrow> e = StopIteration \<and> (\<forall>k<T. k \<in> set used)"
proof -
  have "next_color [0..<T] used = Inl e \<longleftrightarrow>
          e = StopIteration \<and> List.find (\<lambda>c. c \<notin> set used) [0..<T] = None"
    by (auto simp: next_color_def split: option.splits)
  also have "\<dots> \<longleftrightarrow> e = StopIteration \<and> (\<forall>k<T. k \<in> set used)"
    by (auto simp: find_None_iff)
  finally show ?thesis .
qed

subsection \<open>The colouring loop\<close>

lemma color_loop_append:
  "color_loop g T (xs @ ys) colors =
     (case color_loop g T xs colors of Inl e \<Rightarrow> Inl e | Inr c \<Rightarrow> color_loop g T ys c)"
  by (induction xs arbitrary: colors) (auto split: sum.splits)

lemma color_loop_error:
  "color_loop g T vs colors = Inl e \<Longrightarrow> e = StopIteration"
  by (induction vs arbitrary: colors) (auto simp: next_color_Inl split: sum.splits)

lemma color_loop_keep:
  "color_loop g T vs c0 = Inr c \<Longrightarrow> x \<notin> set vs \<Longrightarrow> map_of c x = map_of c0 x"
  by (induction vs arbitrary: c0) (auto simp: update_conv' split: sum.splits)

lemma color_loop_dom:
  "color_loop g T vs c0 = Inr c \<Longrightarrow> fst ` set c = fst ` set c0 \<union> set vs"
  by (induction vs arbitrary: c0) (auto simp: dom_update split: sum.splits)

lemma color_loop_range:
  "color_loop g T vs c0 = Inr c \<Longrightarrow> (\<forall>x k. map_of c0 x = Some k \<longrightarrow> k < T) \<Longrightarrow>
   map_of c x = Some k \<Longrightarrow> k < T"
proof (induction vs arbitrary: c0)
  case Nil
  then show ?case by auto
next
  case (Cons v vs)
  from Cons.prems(1) obtain k0 where k0: "next_color [0..<T] (used_colors g c0 v) = Inr k0"
    and rest: "color_loop g T vs (AList.update v k0 c0) = Inr c"
    by (auto split: sum.splits)
  from k0 have "k0 < T" by (simp add: next_color_Inr)
  with Cons.prems(2) have "\<forall>x k. map_of (AList.update v k0 c0) x = Some k \<longrightarrow> k < T"
    by (auto simp: update_conv')
  from Cons.IH [OF rest this Cons.prems(3)] show ?case .
qed

lemma proper_step:
  assumes sym: "\<And>x y. has_edge g x y \<Longrightarrow> has_edge g y x"
    and p: "proper g c0"
    and k: "next_color [0..<T] (used_colors g c0 v) = Inr k"
  shows "proper g (AList.update v k c0)"
proof -
  from k have free: "\<And>n. has_edge g v n \<Longrightarrow> map_of c0 n \<noteq> Some k"
    by (auto simp: next_color_Inr set_used_colors)
  show ?thesis
    unfolding proper_def
  proof (intro allI impI, elim conjE)
    fix x y a b
    assume e: "has_edge g x y" and ne: "x \<noteq> y"
      and a: "map_of (AList.update v k c0) x = Some a"
      and b: "map_of (AList.update v k c0) y = Some b"
    show "a \<noteq> b"
    proof (cases "x = v")
      case True
      with ne a b have "a = k" "map_of c0 y = Some b" by (auto simp: update_conv')
      with free [of y] e True show ?thesis by auto
    next
      case False
      show ?thesis
      proof (cases "y = v")
        case True
        with False a b have "b = k" "map_of c0 x = Some a" by (auto simp: update_conv')
        with free [of x] sym [OF e] True show ?thesis by auto
      next
        case False
        with \<open>x \<noteq> v\<close> a b have "map_of c0 x = Some a" "map_of c0 y = Some b"
          by (auto simp: update_conv')
        with p e ne show ?thesis by (auto simp: proper_def)
      qed
    qed
  qed
qed

lemma color_loop_proper:
  assumes sym: "\<And>x y. has_edge g x y \<Longrightarrow> has_edge g y x"
  shows "color_loop g T vs c0 = Inr c \<Longrightarrow> proper g c0 \<Longrightarrow> proper g c"
proof (induction vs arbitrary: c0)
  case Nil
  then show ?case by simp
next
  case (Cons v vs)
  from Cons.prems(1) obtain k where k: "next_color [0..<T] (used_colors g c0 v) = Inr k"
    and rest: "color_loop g T vs (AList.update v k c0) = Inr c"
    by (auto split: sum.splits)
  from proper_step [OF sym Cons.prems(2) k] have "proper g (AList.update v k c0)" .
  from Cons.IH [OF rest this] show ?case .
qed

text \<open>The colour of the \<open>i\<close>-th processed vertex is the least one no earlier-coloured
  neighbour holds.\<close>

lemma color_loop_least:
  assumes "color_loop g T vs c0 = Inr c" and "distinct vs" and "fst ` set c0 \<inter> set vs = {}"
    and "i < length vs"
  shows "\<exists>k. map_of c (vs ! i) = Some k \<and> k < T \<and>
     k \<notin> {k'. \<exists>n. has_edge g (vs ! i) n \<and> n \<in> fst ` set c0 \<union> set (take i vs) \<and>
               map_of c n = Some k'} \<and>
     (\<forall>j<k. j \<in> {k'. \<exists>n. has_edge g (vs ! i) n \<and> n \<in> fst ` set c0 \<union> set (take i vs) \<and>
               map_of c n = Some k'})"
  using assms
proof (induction vs arbitrary: c0 i)
  case Nil
  then show ?case by simp
next
  case (Cons v vs)
  from Cons.prems(1) obtain k where k: "next_color [0..<T] (used_colors g c0 v) = Inr k"
    and rest: "color_loop g T vs (AList.update v k c0) = Inr c"
    by (auto split: sum.splits)
  from Cons.prems(2) have v: "v \<notin> set vs" and d: "distinct vs" by simp_all
  show ?case
  proof (cases i)
    case 0
    from color_loop_keep [OF rest v] have cv: "map_of c v = Some k"
      by (simp add: update_conv')
    have same: "map_of c n = map_of c0 n" if "n \<in> fst ` set c0" for n
    proof -
      from that Cons.prems(3) have "n \<notin> set vs" "n \<noteq> v" by auto
      with color_loop_keep [OF rest, of n] show ?thesis by (simp add: update_conv')
    qed
    have in_dom: "n \<in> fst ` set c0" if "map_of c0 n = Some x" for n x
      using map_of_SomeD [OF that] by force
    have "{k'. \<exists>n. has_edge g v n \<and> n \<in> fst ` set c0 \<and> map_of c n = Some k'} =
          set (used_colors g c0 v)" (is "?A = _")
    proof (rule set_eqI)
      fix x
      show "x \<in> ?A \<longleftrightarrow> x \<in> set (used_colors g c0 v)"
      proof
        assume "x \<in> ?A"
        then obtain n where "has_edge g v n" "n \<in> fst ` set c0" "map_of c n = Some x"
          by blast
        with same [of n] show "x \<in> set (used_colors g c0 v)"
          unfolding set_used_colors by auto
      next
        assume "x \<in> set (used_colors g c0 v)"
        then obtain n where e: "has_edge g v n" and m: "map_of c0 n = Some x"
          unfolding set_used_colors by blast
        from in_dom [OF m] same m have "n \<in> fst ` set c0 \<and> map_of c n = Some x"
          by simp
        with e show "x \<in> ?A"
          by blast
      qed
    qed
    with k cv 0 show ?thesis
      by (simp add: next_color_Inr)
  next
    case (Suc j)
    with Cons.prems(4) have j: "j < length vs" by simp
    from Cons.prems(3) v d have disj: "fst ` set (AList.update v k c0) \<inter> set vs = {}"
      by (auto simp: dom_update)
    from Cons.IH [OF rest d disj j] Suc show ?thesis
      by (simp add: dom_update Un_assoc insert_commute)
  qed
qed

lemma proper_Nil: "proper g []"
  by (simp add: proper_def)

lemma graph_build_cong:
  "graph (build_conflict_graph (st\<lparr>color_assignments := c\<rparr>)) = graph (build_conflict_graph st)"
  by (simp add: build_conflict_graph_def)


text \<open>
  Claim C1. When the colouring stage completes on the conflict graph of a freshly loaded
  generator, any two courses with different ids that share a teacher or a student group
  both have a time-slot index in the colour assignment, and the two indices differ.
\<close>

theorem coloring_separates_conflicts:
  assumes "welsh_powell_coloring (build_conflict_graph (load cs ts rs)) = Inr colors"
    and "c1 \<in> set cs" and "c2 \<in> set cs" and "course_id c1 \<noteq> course_id c2"
    and "teacher c1 = teacher c2 \<or> student_group c1 = student_group c2"
  shows "\<exists>k1 k2. map_of colors (course_id c1) = Some k1 \<and>
           map_of colors (course_id c2) = Some k2 \<and> k1 \<noteq> k2"
proof -
  let ?g = "graph (build_conflict_graph (load cs ts rs))"
  from assms(1) have loop: "color_loop ?g (length ts) (vertices ?g) [] = Inr colors"
    by (simp add: welsh_powell_coloring_def load_eq)
  from color_loop_dom [OF loop] have dom: "fst ` set colors = course_id ` set cs"
    by (simp add: set_nodes_built)
  have "course_id c1 \<in> fst ` set colors" "course_id c2 \<in> fst ` set colors"
    using assms(2,3) by (simp_all add: dom)
  then obtain k1 k2 where k: "map_of colors (course_id c1) = Some k1"
    "map_of colors (course_id c2) = Some k2"
    by (metis map_of_eq_None_iff not_Some_eq)
  have "proper ?g colors"
    by (rule color_loop_proper [OF _ loop proper_Nil]) (rule has_edge_built_sym)
  moreover from assms(2-5) have "has_edge ?g (course_id c1) (course_id c2)"
    by (simp add: has_edge_built_conflict conflict_def)
  ultimately have "k1 \<noteq> k2"
    using k assms(4) by (auto simp: proper_def)
  with k show ?thesis by blast
qed

theorem coloring_separates_conflicts_witness:
  "welsh_powell_coloring (build_conflict_graph (load
      [mk_course ''A'' ''T1'' ''G1'' ''CS'', mk_course ''B'' ''T1'' ''G2'' ''CS'']
      [mk_slot ''Monday'' 28800000000 32400000000, mk_slot ''Monday'' 32400000000 36000000000] [])) = Inr [(''A'', 0), (''B'', 1)] \<and>
   (\<exists>k1 k2. map_of [(''A'', 0), (''B'', 1 :: nat)] ''A'' = Some k1 \<and>
        map_of [(''A'', 0), (''B'', 1 :: nat)] ''B'' = Some k2 \<and> k1 \<noteq> k2)"
proof -
  have c: "welsh_powell_coloring (build_conflict_graph (load
      [mk_course ''A'' ''T1'' ''G1'' ''CS'', mk_course ''B'' ''T1'' ''G2'' ''CS'']
      [mk_slot ''Monday'' 28800000000 32400000000, mk_slot ''Monday'' 32400000000 36000000000] [])) = Inr [(''A'', 0), (''B'', 1)]"
    by code_simp
  from coloring_separates_conflicts [OF c,
      of "mk_course ''A'' ''T1'' ''G1'' ''CS''" "mk_course ''B'' ''T1'' ''G2'' ''CS''"]
  have "\<exists>k1 k2. map_of [(''A'', 0), (''B'', 1 :: nat)] ''A'' = Some k1 \<and>
        map_of [(''A'', 0), (''B'', 1 :: nat)] ''B'' = Some k2 \<and> k1 \<noteq> k2"
    by simp
  with c show ?thesis by (rule conjI)
qed

text \<open>
  Claim C3, as amended. If, when the colouring stage reaches a vertex, every slot index
  \<open>0..T-1\<close> is held by one of its coloured neighbours, \<open>next\<close> raises \<open>StopIteration\<close>:
  the stage returns no colour assignment and \<open>generate_timetable\<close> ends with that
  exception. The code has no \<open>CapacityExceeded\<close> outcome.
\<close>

theorem coloring_raises_when_palette_exhausted:
  assumes "vertices (graph (build_conflict_graph st)) = pre @ v # post"
    and "color_loop (graph (build_conflict_graph st)) (length (time_slots st)) pre [] = Inr colors"
    and "\<forall>k < length (time_slots st).
           \<exists>n. has_edge (graph (build_conflict_graph st)) v n \<and> map_of colors n = Some k"
  shows "welsh_powell_coloring (build_conflict_graph st) = Inl StopIteration \<and>
         generate_timetable st = Inl StopIteration"
proof -
  let ?g = "graph (build_conflict_graph st)"
  from assms(3) have "\<forall>k < length (time_slots st). k \<in> set (used_colors ?g colors v)"
    by (simp add: set_used_colors)
  then have "next_color [0..<length (time_slots st)] (used_colors ?g colors v) = Inl StopIteration"
    by (simp add: next_color_Inl)
  with assms(1,2) have "welsh_powell_coloring (build_conflict_graph st) = Inl StopIteration"
    by (simp add: welsh_powell_coloring_def color_loop_append)
  then show ?thesis
    by (simp add: generate_timetable_def)
qed

theorem coloring_raises_when_palette_exhausted_witness:
  "has_edge (graph (build_conflict_graph (load
      [mk_course ''A'' ''T'' ''G1'' ''CS'', mk_course ''B'' ''T'' ''G2'' ''CS'']
      [mk_slot ''Monday'' 28800000000 32400000000] [mk_room ''R1'' ''CS'', mk_room ''R2'' ''CS'']))) ''B'' ''A'' \<and>
   color_loop (graph (build_conflict_graph (load
      [mk_course ''A'' ''T'' ''G1'' ''CS'', mk_course ''B'' ''T'' ''G2'' ''CS'']
      [mk_slot ''Monday'' 28800000000 32400000000] [mk_room ''R1'' ''CS'', mk_room ''R2'' ''CS''])))
      1 [''A''] [] = Inr [(''A'', 0)] \<and>
   welsh_powell_coloring (build_conflict_graph (load
      [mk_course ''A'' ''T'' ''G1'' ''CS'', mk_course ''B'' ''T'' ''G2'' ''CS'']
      [mk_slot ''Monday'' 28800000000 32400000000] [mk_room ''R1'' ''CS'', mk_room ''R2'' ''CS''])) = Inl StopIteration"
  (is "has_edge (graph (build_conflict_graph ?st)) _ _ \<and> _ \<and> _")
proof -
  let ?g = "graph (build_conflict_graph ?st)"
  have len: "length (time_slots ?st) = 1"
    by (simp add: load_eq)
  have v: "vertices ?g = [''A''] @ ''B'' # []"
    by code_simp
  have e: "has_edge ?g ''B'' ''A''"
    by code_simp
  have pre: "color_loop ?g (length (time_slots ?st)) [''A''] [] = Inr [(''A'', 0)]"
    unfolding len by code_simp
  have full: "\<forall>k < length (time_slots ?st). \<exists>n. has_edge ?g ''B'' n \<and>
      map_of [(''A'', 0 :: nat)] n = Some k"
    unfolding len using e by auto
  from coloring_raises_when_palette_exhausted [OF v pre full]
  have "welsh_powell_coloring (build_conflict_graph ?st) = Inl StopIteration"
    by (rule conjunct1)
  with e pre show ?thesis
    unfolding len by blast
qed

text \<open>The first example scenario of the specification: two courses of one teacher and a
  single time slot. The run ends with the unhandled \<open>StopIteration\<close>.\<close>

theorem capacity_exceeded_counterexample:
  "generate_timetable (load
      [mk_course ''A'' ''T'' ''G1'' ''CS'', mk_course ''B'' ''T'' ''G2'' ''CS'']
      [mk_slot ''Monday'' 28800000000 32400000000] [mk_room ''R1'' ''CS'', mk_room ''R2'' ''CS'']) = Inl StopIteration"
  by code_simp

text \<open>
  Claim C8. With unique course ids, the colouring stage processes every course id once, in
  the order of descending degree in the conflict graph, ids of equal degree in the order
  of registration; and when the stage completes, the colour of each processed id is the
  smallest index in \<open>0..T-1\<close> that none of its neighbours processed before it holds.
\<close>

theorem welsh_powell_order_and_choice:
  assumes "distinct (map course_id cs)"
    and "g = graph (build_conflict_graph (load cs ts rs))"
  shows "mset (vertices g) = mset (map course_id cs) \<and>
    (\<forall>as a bs b zs. vertices g = as @ a # bs @ b # zs \<longrightarrow>
       degree g b \<le> degree g a \<and>
       (degree g a = degree g b \<longrightarrow>
          (\<exists>as' bs' zs'. map course_id cs = as' @ a # bs' @ b # zs'))) \<and>
    (\<forall>colors. welsh_powell_coloring (build_conflict_graph (load cs ts rs)) = Inr colors \<longrightarrow>
       (\<forall>i < length (vertices g).
          \<exists>k. map_of colors (vertices g ! i) = Some k \<and> k < length ts \<and>
              (\<forall>n. has_edge g (vertices g ! i) n \<and> n \<in> set (take i (vertices g)) \<longrightarrow>
                   map_of colors n \<noteq> Some k) \<and>
              (\<forall>j<k. \<exists>n. has_edge g (vertices g ! i) n \<and> n \<in> set (take i (vertices g)) \<and>
                   map_of colors n = Some j)))"
proof (intro conjI allI impI)
  from assms show "mset (vertices g) = mset (map course_id cs)"
    by (simp add: mset_vertices nodes_built)
next
  fix as a bs b zs
  assume v: "vertices g = as @ a # bs @ b # zs"
  from vertices_order(1) [OF v] show "degree g b \<le> degree g a" .
  assume "degree g a = degree g b"
  from vertices_order(2) [OF v this] assms
  show "\<exists>as' bs' zs'. map course_id cs = as' @ a # bs' @ b # zs'"
    by (simp add: nodes_built)
next
  fix colors i
  assume c: "welsh_powell_coloring (build_conflict_graph (load cs ts rs)) = Inr colors"
    and i: "i < length (vertices g)"
  from c assms(2) have loop: "color_loop g (length ts) (vertices g) [] = Inr colors"
    by (simp add: welsh_powell_coloring_def load_eq)
  from assms have d: "distinct (vertices g)"
    by (simp add: nodes_built)
  from color_loop_least [OF loop d _ i]
  obtain k where k: "map_of colors (vertices g ! i) = Some k" "k < length ts"
    "k \<notin> {k'. \<exists>n. has_edge g (vertices g ! i) n \<and> n \<in> set (take i (vertices g)) \<and>
               map_of colors n = Some k'}"
    "\<forall>j<k. j \<in> {k'. \<exists>n. has_edge g (vertices g ! i) n \<and> n \<in> set (take i (vertices g)) \<and>
               map_of colors n = Some k'}"
    by auto
  from k(3) have "\<forall>n. has_edge g (vertices g ! i) n \<and> n \<in> set (take i (vertices g)) \<longrightarrow>
                   map_of colors n \<noteq> Some k"
    by blast
  moreover from k(4) have "\<forall>j<k. \<exists>n. has_edge g (vertices g ! i) n \<and>
      n \<in> set (take i (vertices g)) \<and> map_of colors n = Some j"
    by blast
  ultimately show "\<exists>k. map_of colors (vertices g ! i) = Some k \<and> k < length ts \<and>
              (\<forall>n. has_edge g (vertices g ! i) n \<and> n \<in> set (take i (vertices g)) \<longrightarrow>
                   map_of colors n \<noteq> Some k) \<and>
              (\<forall>j<k. \<exists>n. has_edge g (vertices g ! i) n \<and> n \<in> set (take i (vertices g)) \<and>
                   map_of colors n = Some j)"
    using k(1,2) by blast
qed

theorem welsh_powell_order_and_choice_witness:
  "distinct (map course_id
      [mk_course ''A'' ''T1'' ''G1'' ''CS'', mk_course ''B'' ''T2'' ''G1'' ''CS'',
       mk_course ''C'' ''T2'' ''G3'' ''CS'']) \<and>
   vertices (graph (build_conflict_graph (load
      [mk_course ''A'' ''T1'' ''G1'' ''CS'', mk_course ''B'' ''T2'' ''G1'' ''CS'',
       mk_course ''C'' ''T2'' ''G3'' ''CS'']
      [mk_slot ''Monday'' 28800000000 32400000000, mk_slot ''Monday'' 32400000000 36000000000] []))) = [''B'', ''A'', ''C''] \<and>
   welsh_powell_coloring (build_conflict_graph (load
      [mk_course ''A'' ''T1'' ''G1'' ''CS'', mk_course ''B'' ''T2'' ''G1'' ''CS'',
       mk_course ''C'' ''T2'' ''G3'' ''CS'']
      [mk_slot ''Monday'' 28800000000 32400000000, mk_slot ''Monday'' 32400000000 36000000000] [])) =
     Inr [(''B'', 0), (''A'', 1), (''C'', 1)] \<and>
   degree (graph (build_conflict_graph (load
      [mk_course ''A'' ''T1'' ''G1'' ''CS'', mk_course ''B'' ''T2'' ''G1'' ''CS'',
       mk_course ''C'' ''T2'' ''G3'' ''CS'']
      [mk_slot ''Monday'' 28800000000 32400000000, mk_slot ''Monday'' 32400000000 36000000000] []))) ''A'' \<le>
   degree (graph (build_conflict_graph (load
      [mk_course ''A'' ''T1'' ''G1'' ''CS'', mk_course ''B'' ''T2'' ''G1'' ''CS'',
       mk_course ''C'' ''T2'' ''G3'' ''CS'']
      [mk_slot ''Monday'' 28800000000 32400000000, mk_slot ''Monday'' 32400000000 36000000000] []))) ''B'' \<and>
   (\<exists>k. map_of [(''B'', 0), (''A'', 1), (''C'', 1 :: nat)] ''C'' = Some k \<and> k < 2 \<and>
        0 < k)"
  (is "distinct (map course_id ?cs) \<and> vertices (graph (build_conflict_graph ?st)) = _ \<and> _ \<and> _ \<and> _")
proof -
  let ?g = "graph (build_conflict_graph ?st)"
  let ?colors = "[(''B'', 0), (''A'', 1), (''C'', 1 :: nat)]"
  have d: "distinct (map course_id ?cs)" by simp
  have v: "vertices ?g = [''B'', ''A'', ''C'']" by code_simp
  have c: "welsh_powell_coloring (build_conflict_graph ?st) = Inr ?colors" by code_simp
  have bc: "has_edge ?g ''C'' ''B''" by code_simp
  note t = welsh_powell_order_and_choice [OF d refl, of "[mk_slot ''Monday'' 28800000000 32400000000, mk_slot ''Monday'' 32400000000 36000000000]" "[]"]
  from t have "\<forall>as a bs b zs. vertices ?g = as @ a # bs @ b # zs \<longrightarrow> degree ?g b \<le> degree ?g a"
    by blast
  from this [rule_format, of "[]" "''B''" "[]" "''A''" "[''C'']"] v
  have deg: "degree ?g ''A'' \<le> degree ?g ''B''"
    by simp
  have i: "2 < length (vertices ?g)"
    unfolding v by simp
  from t have "\<forall>colors. welsh_powell_coloring (build_conflict_graph ?st) = Inr colors \<longrightarrow>
       (\<forall>i < length (vertices ?g).
          \<exists>k. map_of colors (vertices ?g ! i) = Some k \<and>
              k < length [mk_slot ''Monday'' 28800000000 32400000000, mk_slot ''Monday'' 32400000000 36000000000] \<and>
              (\<forall>n. has_edge ?g (vertices ?g ! i) n \<and> n \<in> set (take i (vertices ?g)) \<longrightarrow>
                   map_of colors n \<noteq> Some k) \<and>
              (\<forall>j<k. \<exists>n. has_edge ?g (vertices ?g ! i) n \<and> n \<in> set (take i (vertices ?g)) \<and>
                   map_of colors n = Some j))"
    by (rule conjunct2 [THEN conjunct2])
  from this [rule_format, OF c i]
  obtain k where k0: "map_of ?colors (vertices ?g ! 2) = Some k"
    "k < length [mk_slot ''Monday'' 28800000000 32400000000, mk_slot ''Monday'' 32400000000 36000000000]"
    "\<forall>n. has_edge ?g (vertices ?g ! 2) n \<and> n \<in> set (take 2 (vertices ?g)) \<longrightarrow>
        map_of ?colors n \<noteq> Some k"
    by blast
  from k0(1) have k1: "map_of ?colors ''C'' = Some k"
    by (simp add: v)
  from k0(2) have k2: "k < 2"
    by simp
  have k3: "\<forall>n. has_edge ?g ''C'' n \<and> n \<in> set (take 2 [''B'', ''A'', ''C'']) \<longrightarrow>
        map_of ?colors n \<noteq> Some k"
    using k0(3) unfolding v by simp
  note k = k1 k2 k3
  from k(3) [rule_format, of "''B''"] bc have "0 < k"
    by simp
  with k(1,2) have "\<exists>k. map_of ?colors ''C'' = Some k \<and> k < 2 \<and> 0 < k"
    by blast
  with d v c deg show ?thesis
    by blast
qed

section \<open>Room allocation\<close>

subsection \<open>Availability of a room\<close>

lemma slot_of_ra [simp]: "slot_of (st\<lparr>room_assignments := ra\<rparr>) k = slot_of st k"
  by (simp add: slot_of_def split: option.splits)

lemma room_free_ra [simp]:
  "room_free (st\<lparr>room_assignments := ra\<rparr>) items rid ts = room_free st items rid ts"
  by (induction items) (auto split: sum.splits)

lemma room_free_eq:
  assumes "\<forall>(k, r) \<in> set items. \<exists>s. slot_of st k = Inr s"
  shows "room_free st items rid ts =
     Inr (\<forall>(k, r) \<in> set items. r = rid \<longrightarrow> (\<forall>s. slot_of st k = Inr s \<longrightarrow> \<not> time_slots_overlap ts s))"
  using assms
proof (induction items)
  case Nil
  then show ?case by simp
next
  case (Cons item items)
  obtain k r where item: "item = (k, r)" by (cases item)
  from Cons.prems item obtain s where s: "slot_of st k = Inr s" by auto
  from Cons.prems have "\<forall>(k, r) \<in> set items. \<exists>s. slot_of st k = Inr s" by simp
  from Cons.IH [OF this] show ?case
    by (auto simp: item s)
qed

lemma is_room_available_eq:
  assumes "keys_ok st" and "distinct (map fst (room_assignments st))"
  shows "is_room_available st rid ts =
     Inr (\<forall>k s. map_of (room_assignments st) k = Some rid \<and> slot_of st k = Inr s \<longrightarrow>
            \<not> time_slots_overlap ts s)"
proof -
  from assms have "\<forall>(k, r) \<in> set (room_assignments st). \<exists>s. slot_of st k = Inr s"
    by (auto simp: keys_ok_def)
  from room_free_eq [OF this, of rid ts] assms(2) show ?thesis
    by (auto simp: is_room_available_def)
qed

lemma is_room_available_total:
  "keys_ok st \<Longrightarrow> distinct (map fst (room_assignments st)) \<Longrightarrow>
   is_room_available st rid ts \<noteq> Inr True \<longleftrightarrow> is_room_available st rid ts = Inr False"
  by (simp add: is_room_available_eq)

subsection \<open>One tier, and the three tiers together\<close>

lemma find_append:
  "List.find P (xs @ ys) = (case List.find P xs of None \<Rightarrow> List.find P ys | Some x \<Rightarrow> Some x)"
  by (induction xs) auto

lemma try_rooms_eq:
  assumes "keys_ok st" and "distinct (map fst (room_assignments st))"
  shows "try_rooms st c ts rs =
     (case List.find (\<lambda>r. is_room_available st (room_id r) ts = Inr True) rs of
        None \<Rightarrow> Inr (st, False)
      | Some r \<Rightarrow>
          Inr (st\<lparr>room_assignments :=
                 AList.update (course_id c) (room_id r) (room_assignments st)\<rparr>, True))"
proof (induction rs)
  case Nil
  show ?case by simp
next
  case (Cons r rs)
  from is_room_available_eq [OF assms, of "room_id r" ts]
  obtain b where b: "is_room_available st (room_id r) ts = Inr b"
    by blast
  show ?case
    by (cases b) (simp_all add: b Cons.IH)
qed

lemma tier_fields [simp]:
  "department_rooms (st\<lparr>room_assignments := ra\<rparr>) c = department_rooms st c"
  "nab_rooms (st\<lparr>room_assignments := ra\<rparr>) = nab_rooms st"
  "other_rooms (st\<lparr>room_assignments := ra\<rparr>) c = other_rooms st c"
  by (simp_all add: department_rooms_def nab_rooms_def other_rooms_def)

lemma set_tiers: "set (tiers st c) = set (rooms st)"
  by (auto simp: tiers_def department_rooms_def nab_rooms_def other_rooms_def)

lemma assign_course_eq:
  assumes "keys_ok st" and "distinct (map fst (room_assignments st))"
    and "slot_of st (course_id c) = Inr ts"
  shows "assign_course st c =
     Inr (case chosen_room st c ts of
            None \<Rightarrow> st
          | Some r \<Rightarrow>
              st\<lparr>room_assignments :=
                   AList.update (course_id c) (room_id r) (room_assignments st)\<rparr>)"
  by (simp add: assign_course_def assms(3) try_rooms_eq [OF assms(1,2)] chosen_room_def tiers_def
      find_append split: option.splits)

lemma assign_course_error:
  "slot_of st (course_id c) = Inl e \<Longrightarrow> assign_course st c = Inl e"
  by (simp add: assign_course_def)

lemma chosen_room_None:
  assumes "keys_ok st" and "distinct (map fst (room_assignments st))"
  shows "chosen_room st c ts = None \<longleftrightarrow>
     (\<forall>r \<in> set (rooms st). is_room_available st (room_id r) ts = Inr False)"
  by (simp add: chosen_room_def find_None_iff set_tiers is_room_available_eq [OF assms]) blast

lemma chosen_room_Some:
  "chosen_room st c ts = Some r \<Longrightarrow>
   r \<in> set (rooms st) \<and> is_room_available st (room_id r) ts = Inr True"
proof -
  assume "chosen_room st c ts = Some r"
  then obtain i where "i < length (tiers st c)" "r = tiers st c ! i"
    "is_room_available st (room_id r) ts = Inr True"
    by (auto simp: chosen_room_def find_Some_iff)
  moreover from this(1,2) have "r \<in> set (tiers st c)"
    by simp
  ultimately show ?thesis
    by (simp add: set_tiers)
qed

lemma chosen_room_home:
  assumes "r \<in> set (department_rooms st c)" and "is_room_available st (room_id r) ts = Inr True"
  shows "\<exists>r'. chosen_room st c ts = Some r' \<and>
     List.find (\<lambda>r. is_room_available st (room_id r) ts = Inr True) (department_rooms st c) = Some r' \<and>
     r' \<in> set (department_rooms st c) \<and> is_room_available st (room_id r') ts = Inr True"
proof -
  from assms have "List.find (\<lambda>r. is_room_available st (room_id r) ts = Inr True)
      (department_rooms st c) \<noteq> None"
    by (auto simp: find_None_iff)
  then obtain r' where r': "List.find (\<lambda>r. is_room_available st (room_id r) ts = Inr True)
      (department_rooms st c) = Some r'"
    by blast
  then have "r' \<in> set (department_rooms st c) \<and> is_room_available st (room_id r') ts = Inr True"
    by (auto simp: find_Some_iff)
  with r' show ?thesis
    by (simp add: chosen_room_def tiers_def find_append)
qed

subsection \<open>The invariant of the allocation loop\<close>

lemma time_slots_overlap_sym: "time_slots_overlap s1 s2 = time_slots_overlap s2 s1"
  by (auto simp: time_slots_overlap_def)

lemma alloc_inv_empty: "room_assignments st = [] \<Longrightarrow> alloc_inv st"
  by (simp add: alloc_inv_def keys_ok_def rooms_disjoint_def)

lemma alloc_inv_update:
  assumes inv: "alloc_inv st" and slot: "slot_of st k = Inr ts"
    and room: "r \<in> set (rooms st)" and free: "is_room_available st (room_id r) ts = Inr True"
  shows "alloc_inv (st\<lparr>room_assignments := AList.update k (room_id r) (room_assignments st)\<rparr>)"
proof -
  from inv have d: "distinct (map fst (room_assignments st))" and ok: "keys_ok st"
    and dis: "rooms_disjoint st"
    and known: "\<And>k r. map_of (room_assignments st) k = Some r \<Longrightarrow> r \<in> room_id ` set (rooms st)"
    by (simp_all add: alloc_inv_def)
  from free have nov: "\<And>k' s. map_of (room_assignments st) k' = Some (room_id r) \<Longrightarrow>
      slot_of st k' = Inr s \<Longrightarrow> \<not> time_slots_overlap ts s"
    by (simp add: is_room_available_eq [OF ok d])
  let ?st = "st\<lparr>room_assignments := AList.update k (room_id r) (room_assignments st)\<rparr>"
  have 1: "distinct (map fst (room_assignments ?st))"
    using d by (simp add: distinct_update)
  have 2: "keys_ok ?st"
    using ok slot by (auto simp: keys_ok_def update_conv')
  have 3: "rooms_disjoint ?st"
    unfolding rooms_disjoint_def
  proof (intro allI impI, elim conjE)
    fix k1 k2 r' s1 s2
    assume ne: "k1 \<noteq> k2"
      and m1: "map_of (room_assignments ?st) k1 = Some r'"
      and m2: "map_of (room_assignments ?st) k2 = Some r'"
      and s1: "slot_of ?st k1 = Inr s1" and s2: "slot_of ?st k2 = Inr s2"
    show "\<not> time_slots_overlap s1 s2"
    proof (cases "k1 = k")
      case True
      with ne m1 m2 s1 s2 slot have "r' = room_id r" "s1 = ts"
        "map_of (room_assignments st) k2 = Some (room_id r)" "slot_of st k2 = Inr s2"
        by (auto simp: update_conv')
      with nov show ?thesis by blast
    next
      case False
      show ?thesis
      proof (cases "k2 = k")
        case True
        with ne m1 m2 s1 s2 slot have "r' = room_id r" "s2 = ts"
          "map_of (room_assignments st) k1 = Some (room_id r)" "slot_of st k1 = Inr s1"
          by (auto simp: update_conv')
        with nov have "\<not> time_slots_overlap ts s1" by blast
        with \<open>s2 = ts\<close> show ?thesis by (simp add: time_slots_overlap_sym)
      next
        case False
        with \<open>k1 \<noteq> k\<close> m1 m2 s1 s2 have "map_of (room_assignments st) k1 = Some r'"
          "map_of (room_assignments st) k2 = Some r'" "slot_of st k1 = Inr s1"
          "slot_of st k2 = Inr s2"
          by (auto simp: update_conv')
        with dis ne show ?thesis by (auto simp: rooms_disjoint_def)
      qed
    qed
  qed
  have 4: "\<forall>k' r'. map_of (room_assignments ?st) k' = Some r' \<longrightarrow> r' \<in> room_id ` set (rooms ?st)"
    using known room by (auto simp: update_conv')
  from 1 2 3 4 show ?thesis
    by (simp add: alloc_inv_def)
qed

text \<open>One step of the loop, under the invariant: it fails only for want of a slot, and
  otherwise enters the chosen room, if there is one.\<close>

lemma assign_course_step:
  assumes "alloc_inv st" and "assign_course st c = Inr st'"
  shows "\<exists>ts. slot_of st (course_id c) = Inr ts \<and>
     st' = (case chosen_room st c ts of
              None \<Rightarrow> st
            | Some r \<Rightarrow>
                st\<lparr>room_assignments :=
                     AList.update (course_id c) (room_id r) (room_assignments st)\<rparr>)"
proof (cases "slot_of st (course_id c)")
  case (Inl e)
  with assms(2) show ?thesis by (simp add: assign_course_error)
next
  case (Inr ts)
  from assms(1) have "keys_ok st" "distinct (map fst (room_assignments st))"
    by (simp_all add: alloc_inv_def)
  from assign_course_eq [OF this Inr] assms(2) Inr show ?thesis
    by simp
qed

lemma assign_course_total:
  assumes "alloc_inv st" and "slot_of st (course_id c) = Inr ts"
  shows "\<exists>st'. assign_course st c = Inr st'"
proof -
  from assms(1) have "keys_ok st" "distinct (map fst (room_assignments st))"
    by (simp_all add: alloc_inv_def)
  from assign_course_eq [OF this assms(2)] show ?thesis by simp
qed

lemma assign_course_inv:
  assumes "alloc_inv st" and "assign_course st c = Inr st'"
  shows "alloc_inv st' \<and> (\<exists>ra. st' = st\<lparr>room_assignments := ra\<rparr>) \<and>
     (\<forall>k. k \<noteq> course_id c \<longrightarrow> map_of (room_assignments st') k = map_of (room_assignments st) k)"
proof -
  from assign_course_step [OF assms] obtain ts where ts: "slot_of st (course_id c) = Inr ts"
    and st': "st' = (case chosen_room st c ts of
              None \<Rightarrow> st
            | Some r \<Rightarrow>
                st\<lparr>room_assignments :=
                     AList.update (course_id c) (room_id r) (room_assignments st)\<rparr>)"
    by blast
  show ?thesis
  proof (cases "chosen_room st c ts")
    case None
    with st' have "st' = st" by simp
    moreover have "st = st\<lparr>room_assignments := room_assignments st\<rparr>" by simp
    ultimately show ?thesis using assms(1) by metis
  next
    case (Some r)
    with st' have eq: "st' = st\<lparr>room_assignments :=
        AList.update (course_id c) (room_id r) (room_assignments st)\<rparr>"
      by simp
    from chosen_room_Some [OF Some] alloc_inv_update [OF assms(1) ts]
    have "alloc_inv st'" by (simp add: eq)
    with eq show ?thesis by (auto simp: update_conv')
  qed
qed

subsection \<open>The loop over the courses\<close>

lemma assign_loop_append:
  "assign_loop st (xs @ ys) =
     (case assign_loop st xs of Inl e \<Rightarrow> Inl e | Inr st' \<Rightarrow> assign_loop st' ys)"
  by (induction xs arbitrary: st) (auto split: sum.splits)

lemma assign_loop_inv:
  assumes "alloc_inv st" and "assign_loop st cs = Inr st'"
  shows "alloc_inv st' \<and> (\<exists>ra. st' = st\<lparr>room_assignments := ra\<rparr>) \<and>
     (\<forall>k. k \<notin> course_id ` set cs \<longrightarrow>
          map_of (room_assignments st') k = map_of (room_assignments st) k)"
  using assms
proof (induction cs arbitrary: st)
  case Nil
  have "st = st\<lparr>room_assignments := room_assignments st\<rparr>" by simp
  with Nil show ?case by (metis assign_loop.simps(1) sum.inject(2))
next
  case (Cons c cs)
  from Cons.prems(2) obtain st1 where c: "assign_course st c = Inr st1"
    and rest: "assign_loop st1 cs = Inr st'"
    by (auto split: sum.splits)
  from assign_course_inv [OF Cons.prems(1) c] obtain ra1 where inv1: "alloc_inv st1"
    and eq1: "st1 = st\<lparr>room_assignments := ra1\<rparr>"
    and keep1: "\<forall>k. k \<noteq> course_id c \<longrightarrow>
        map_of (room_assignments st1) k = map_of (room_assignments st) k"
    by blast
  from Cons.IH [OF inv1 rest] obtain ra' where inv': "alloc_inv st'"
    and eq': "st' = st1\<lparr>room_assignments := ra'\<rparr>"
    and keep': "\<forall>k. k \<notin> course_id ` set cs \<longrightarrow>
        map_of (room_assignments st') k = map_of (room_assignments st1) k"
    by blast
  from eq1 eq' have "st' = st\<lparr>room_assignments := ra'\<rparr>" by simp
  with inv' keep1 keep' show ?case by auto
qed

lemma assign_loop_total:
  assumes "alloc_inv st" and "\<forall>c \<in> set cs. \<exists>ts. slot_of st (course_id c) = Inr ts"
  shows "\<exists>st'. assign_loop st cs = Inr st'"
  using assms
proof (induction cs arbitrary: st)
  case Nil
  show ?case by simp
next
  case (Cons c cs)
  from Cons.prems(2) obtain ts where "slot_of st (course_id c) = Inr ts" by auto
  from assign_course_total [OF Cons.prems(1) this] obtain st1
    where c: "assign_course st c = Inr st1" by blast
  from assign_course_inv [OF Cons.prems(1) c] obtain ra1 where inv1: "alloc_inv st1"
    and eq1: "st1 = st\<lparr>room_assignments := ra1\<rparr>"
    by blast
  from Cons.prems(2) eq1 have "\<forall>c \<in> set cs. \<exists>ts. slot_of st1 (course_id c) = Inr ts"
    by simp
  from Cons.IH [OF inv1 this] c show ?case by simp
qed

lemma assign_loop_take:
  assumes "assign_loop st cs = Inr st'"
  shows "\<exists>st_n. assign_loop st (take n cs) = Inr st_n \<and> assign_loop st_n (drop n cs) = Inr st'"
proof -
  from assms have "assign_loop st (take n cs @ drop n cs) = Inr st'" by simp
  then show ?thesis
    unfolding assign_loop_append by (auto split: sum.splits)
qed

lemma assign_loop_keys:
  assumes "alloc_inv st" and "assign_loop st cs = Inr st'"
  shows "fst ` set (room_assignments st') \<subseteq> fst ` set (room_assignments st) \<union> course_id ` set cs"
proof
  fix k
  assume k: "k \<in> fst ` set (room_assignments st')"
  show "k \<in> fst ` set (room_assignments st) \<union> course_id ` set cs"
  proof (rule ccontr)
    assume n: "k \<notin> fst ` set (room_assignments st) \<union> course_id ` set cs"
    with assign_loop_inv [OF assms] have "map_of (room_assignments st') k =
        map_of (room_assignments st) k"
      by simp
    also from n have "\<dots> = None" by (simp add: map_of_eq_None_iff)
    finally show False using k by (simp add: map_of_eq_None_iff)
  qed
qed

lemma assign_loop_split:
  assumes "i < length cs" and "assign_loop st (take i cs) = Inr st_i"
  shows "assign_loop st cs =
     (case assign_course st_i (cs ! i) of
        Inl e \<Rightarrow> Inl e
      | Inr st1 \<Rightarrow> assign_loop st1 (drop (Suc i) cs))"
proof -
  from assms(1) have "cs = take i cs @ cs ! i # drop (Suc i) cs"
    by (rule id_take_nth_drop)
  then have "assign_loop st cs = assign_loop st (take i cs @ cs ! i # drop (Suc i) cs)"
    by simp
  also have "\<dots> = (case assign_course st_i (cs ! i) of
        Inl e \<Rightarrow> Inl e
      | Inr st1 \<Rightarrow> assign_loop st1 (drop (Suc i) cs))"
    unfolding assign_loop_append by (simp add: assms(2))
  finally show ?thesis .
qed

lemma distinct_ids_later:
  assumes "distinct (map course_id cs)" and "i < length cs"
  shows "course_id (cs ! i) \<notin> course_id ` set (drop (Suc i) cs)"
    and "course_id (cs ! i) \<notin> course_id ` set (take i cs)"
proof -
  from assms(2) have "cs = take i cs @ cs ! i # drop (Suc i) cs"
    by (rule id_take_nth_drop)
  then have "map course_id cs =
      map course_id (take i cs) @ course_id (cs ! i) # map course_id (drop (Suc i) cs)"
    by (metis list.simps(9) map_append)
  with assms(1) have "distinct
      (map course_id (take i cs) @ course_id (cs ! i) # map course_id (drop (Suc i) cs))"
    by simp
  then show "course_id (cs ! i) \<notin> course_id ` set (drop (Suc i) cs)"
    and "course_id (cs ! i) \<notin> course_id ` set (take i cs)"
    by auto
qed

lemma not_in_keys:
  assumes "alloc_inv st" and "room_assignments st = []" and "assign_loop st cs = Inr st'"
    and "k \<notin> course_id ` set cs"
  shows "map_of (room_assignments st') k = None"
  using assign_loop_inv [OF assms(1,3)] assms(2,4) by simp

text \<open>The state in which the \<open>i\<close>-th course is processed, what the step does, and what
  is left of it at the end, when the ids are unique.\<close>

lemma processed_course:
  assumes empty: "room_assignments st = []" and i: "i < length (courses st)"
    and pre: "assign_loop st (take i (courses st)) = Inr st_i"
    and slot: "slot_of st (course_id (courses st ! i)) = Inr ts"
  shows "alloc_inv st_i"
    and "rooms st_i = rooms st"
    and "slot_of st_i = slot_of st"
    and "assign_course st_i (courses st ! i) =
       Inr (case chosen_room st_i (courses st ! i) ts of
              None \<Rightarrow> st_i
            | Some r \<Rightarrow>
                st_i\<lparr>room_assignments :=
                       AList.update (course_id (courses st ! i)) (room_id r)
                         (room_assignments st_i)\<rparr>)"
proof -
  from assign_loop_inv [OF alloc_inv_empty [OF empty] pre]
  obtain ra where inv: "alloc_inv st_i" and eq: "st_i = st\<lparr>room_assignments := ra\<rparr>"
    by blast
  from inv show "alloc_inv st_i" .
  from eq show "rooms st_i = rooms st" by simp
  from eq show s: "slot_of st_i = slot_of st" by (simp add: fun_eq_iff)
  from inv have "keys_ok st_i" "distinct (map fst (room_assignments st_i))"
    by (simp_all add: alloc_inv_def)
  from assign_course_eq [OF this, of "courses st ! i" ts] slot s
  show "assign_course st_i (courses st ! i) =
       Inr (case chosen_room st_i (courses st ! i) ts of
              None \<Rightarrow> st_i
            | Some r \<Rightarrow>
                st_i\<lparr>room_assignments :=
                       AList.update (course_id (courses st ! i)) (room_id r)
                         (room_assignments st_i)\<rparr>)"
    by simp
qed

lemma final_entry:
  assumes empty: "room_assignments st = []" and d: "distinct (map course_id (courses st))"
    and i: "i < length (courses st)"
    and pre: "assign_loop st (take i (courses st)) = Inr st_i"
    and step: "assign_course st_i (courses st ! i) = Inr st1"
    and fin: "assign_rooms st = Inr st'"
  shows "map_of (room_assignments st') (course_id (courses st ! i)) =
         map_of (room_assignments st1) (course_id (courses st ! i))"
proof -
  from assign_loop_inv [OF alloc_inv_empty [OF empty] pre] have inv: "alloc_inv st_i"
    by blast
  from assign_course_inv [OF inv step] have inv1: "alloc_inv st1"
    by blast
  from fin assign_loop_split [OF i pre] step
  have rest: "assign_loop st1 (drop (Suc i) (courses st)) = Inr st'"
    by (simp add: assign_rooms_def)
  from assign_loop_inv [OF inv1 rest] distinct_ids_later(1) [OF d i] show ?thesis
    by simp
qed

text \<open>
  Claim C2. Starting from an empty room assignment, after every step of \<open>assign_rooms\<close>
  (after any number \<open>n\<close> of courses processed) any two different course ids that hold the
  same room have slots that do not overlap, where two slots overlap iff they have the same
  day and each starts before the other ends.
\<close>

theorem rooms_never_double_booked:
  assumes "room_assignments st = []"
    and "assign_loop st (take n (courses st)) = Inr st'"
    and "k1 \<noteq> k2"
    and "map_of (room_assignments st') k1 = Some r"
    and "map_of (room_assignments st') k2 = Some r"
  shows "\<exists>s1 s2. slot_of st' k1 = Inr s1 \<and> slot_of st' k2 = Inr s2 \<and>
           \<not> time_slots_overlap s1 s2 \<and>
           \<not> (day s1 = day s2 \<and> start_time s1 < end_time s2 \<and> start_time s2 < end_time s1)"
proof -
  from assign_loop_inv [OF alloc_inv_empty [OF assms(1)] assms(2)] have inv: "alloc_inv st'"
    by blast
  then have "keys_ok st'" and dis: "rooms_disjoint st'"
    by (simp_all add: alloc_inv_def)
  with assms(4,5) obtain s1 s2 where s: "slot_of st' k1 = Inr s1" "slot_of st' k2 = Inr s2"
    unfolding keys_ok_def by blast
  with dis assms(3-5) have "\<not> time_slots_overlap s1 s2"
    unfolding rooms_disjoint_def by blast
  with s show ?thesis
    by (auto simp: time_slots_overlap_def)
qed

theorem rooms_never_double_booked_witness:
  "assign_loop
     (colored [mk_course ''A'' ''T1'' ''G1'' ''CS'', mk_course ''B'' ''T1'' ''G2'' ''CS'']
        [mk_slot ''Monday'' 28800000000 32400000000, mk_slot ''Monday'' 32400000000 36000000000]
        [mk_room ''R1'' ''CS'', mk_room ''R2'' ''NAB''] [(''A'', 0), (''B'', 1)])
     (take 2 [mk_course ''A'' ''T1'' ''G1'' ''CS'', mk_course ''B'' ''T1'' ''G2'' ''CS'']) =
   Inr ((colored [mk_course ''A'' ''T1'' ''G1'' ''CS'', mk_course ''B'' ''T1'' ''G2'' ''CS'']
        [mk_slot ''Monday'' 28800000000 32400000000, mk_slot ''Monday'' 32400000000 36000000000]
        [mk_room ''R1'' ''CS'', mk_room ''R2'' ''NAB''] [(''A'', 0), (''B'', 1)])
        \<lparr>room_assignments := [(''A'', ''R1''), (''B'', ''R1'')]\<rparr>) \<and>
   \<not> time_slots_overlap (mk_slot ''Monday'' 28800000000 32400000000)
        (mk_slot ''Monday'' 32400000000 36000000000)"
  (is "assign_loop ?st (take 2 ?cs) = Inr ?st' \<and> _")
proof -
  have cs: "courses ?st = ?cs"
    by (simp add: load_eq)
  have e: "room_assignments ?st = []"
    by (simp add: load_eq build_conflict_graph_def)
  have run: "assign_loop ?st (take 2 ?cs) = Inr ?st'"
    by code_simp
  have sa: "slot_of ?st' ''A'' = Inr (mk_slot ''Monday'' 28800000000 32400000000)"
    by code_simp
  have sb: "slot_of ?st' ''B'' = Inr (mk_slot ''Monday'' 32400000000 36000000000)"
    by code_simp
  from rooms_never_double_booked [of ?st 2 ?st' "''A''" "''B''" "''R1''", OF e]
    run cs sa sb
  have "\<not> time_slots_overlap (mk_slot ''Monday'' 28800000000 32400000000)
        (mk_slot ''Monday'' 32400000000 36000000000)"
    by simp
  with run show ?thesis by (rule conjI)
qed

text \<open>
  Claim C6. When the allocator processes a course and some room of the course's own
  department is available at the course's slot, the step succeeds and assigns the first
  available room of the tier-1 scan, a room of the course's own department; with unique
  course ids that entry is the course's room at the end of \<open>assign_rooms\<close>.
\<close>

theorem home_room_preferred:
  assumes "room_assignments st = []" and "i < length (courses st)"
    and "assign_loop st (take i (courses st)) = Inr st_i"
    and "slot_of st (course_id (courses st ! i)) = Inr ts"
    and "r \<in> set (rooms st)" and "room_department r = course_department (courses st ! i)"
    and "is_room_available st_i (room_id r) ts = Inr True"
  shows "\<exists>st1 r'. assign_course st_i (courses st ! i) = Inr st1 \<and>
           List.find (\<lambda>r. is_room_available st_i (room_id r) ts = Inr True)
             (department_rooms st_i (courses st ! i)) = Some r' \<and>
           r' \<in> set (rooms st) \<and> room_department r' = course_department (courses st ! i) \<and>
           map_of (room_assignments st1) (course_id (courses st ! i)) = Some (room_id r') \<and>
           (distinct (map course_id (courses st)) \<longrightarrow>
              (\<forall>st'. assign_rooms st = Inr st' \<longrightarrow>
                 map_of (room_assignments st') (course_id (courses st ! i)) = Some (room_id r')))"
proof -
  let ?c = "courses st ! i"
  note p = processed_course [OF assms(1-4)]
  from assms(5,6) p(2) have "r \<in> set (department_rooms st_i ?c)"
    by (simp add: department_rooms_def)
  from chosen_room_home [OF this assms(7)] obtain r'
    where ch: "chosen_room st_i ?c ts = Some r'"
      and f: "List.find (\<lambda>r. is_room_available st_i (room_id r) ts = Inr True)
             (department_rooms st_i ?c) = Some r'"
      and home: "r' \<in> set (department_rooms st_i ?c)"
    by blast
  let ?st1 = "st_i\<lparr>room_assignments :=
      AList.update (course_id ?c) (room_id r') (room_assignments st_i)\<rparr>"
  from p(4) ch have step: "assign_course st_i ?c = Inr ?st1"
    by simp
  have entry: "map_of (room_assignments ?st1) (course_id ?c) = Some (room_id r')"
    by (simp add: update_conv')
  from home p(2) have r': "r' \<in> set (rooms st)" "room_department r' = course_department ?c"
    by (simp_all add: department_rooms_def)
  have "map_of (room_assignments st') (course_id ?c) = Some (room_id r')"
    if "distinct (map course_id (courses st))" and "assign_rooms st = Inr st'" for st'
    using final_entry [OF assms(1) that(1) assms(2,3) step that(2)] entry by simp
  with step f r' entry show ?thesis
    by blast
qed

theorem home_room_preferred_witness:
  "assign_loop
     (colored [mk_course ''A'' ''T1'' ''G1'' ''CS'', mk_course ''B'' ''T1'' ''G2'' ''CS'']
        [mk_slot ''Monday'' 28800000000 32400000000, mk_slot ''Monday'' 32400000000 36000000000]
        [mk_room ''R2'' ''NAB'', mk_room ''R1'' ''CS''] [(''A'', 0), (''B'', 1)])
     (take 1 [mk_course ''A'' ''T1'' ''G1'' ''CS'', mk_course ''B'' ''T1'' ''G2'' ''CS'']) =
   Inr ((colored [mk_course ''A'' ''T1'' ''G1'' ''CS'', mk_course ''B'' ''T1'' ''G2'' ''CS'']
        [mk_slot ''Monday'' 28800000000 32400000000, mk_slot ''Monday'' 32400000000 36000000000]
        [mk_room ''R2'' ''NAB'', mk_room ''R1'' ''CS''] [(''A'', 0), (''B'', 1)])
        \<lparr>room_assignments := [(''A'', ''R1'')]\<rparr>) \<and>
   is_room_available
     ((colored [mk_course ''A'' ''T1'' ''G1'' ''CS'', mk_course ''B'' ''T1'' ''G2'' ''CS'']
        [mk_slot ''Monday'' 28800000000 32400000000, mk_slot ''Monday'' 32400000000 36000000000]
        [mk_room ''R2'' ''NAB'', mk_room ''R1'' ''CS''] [(''A'', 0), (''B'', 1)])
        \<lparr>room_assignments := [(''A'', ''R1'')]\<rparr>)
     ''R1'' (mk_slot ''Monday'' 32400000000 36000000000) = Inr True \<and>
   (\<exists>st'. assign_rooms
     (colored [mk_course ''A'' ''T1'' ''G1'' ''CS'', mk_course ''B'' ''T1'' ''G2'' ''CS'']
        [mk_slot ''Monday'' 28800000000 32400000000, mk_slot ''Monday'' 32400000000 36000000000]
        [mk_room ''R2'' ''NAB'', mk_room ''R1'' ''CS''] [(''A'', 0), (''B'', 1)]) = Inr st' \<and>
      map_of (room_assignments st') ''B'' = Some ''R1'')"
  (is "assign_loop ?st (take 1 ?cs) = Inr ?st1 \<and> _ \<and> _")
proof -
  let ?ts = "mk_slot ''Monday'' 32400000000 36000000000"
  let ?r = "mk_room ''R1'' ''CS''"
  have cs: "courses ?st = ?cs"
    by (simp add: load_eq)
  have e: "room_assignments ?st = []"
    by (simp add: load_eq build_conflict_graph_def)
  have i: "1 < length (courses ?st)"
    by (simp add: load_eq)
  have pre: "assign_loop ?st (take 1 (courses ?st)) = Inr ?st1"
    unfolding cs by code_simp
  have slot: "slot_of ?st (course_id (courses ?st ! 1)) = Inr ?ts"
    unfolding cs by code_simp
  have r: "?r \<in> set (rooms ?st)"
    by (simp add: load_eq)
  have dep: "room_department ?r = course_department (courses ?st ! 1)"
    by (simp add: load_eq)
  have free: "is_room_available ?st1 (room_id ?r) ?ts = Inr True"
    by code_simp
  have d: "distinct (map course_id (courses ?st))"
    by (simp add: load_eq)
  have fin: "assign_rooms ?st = Inr (?st\<lparr>room_assignments := [(''A'', ''R1''), (''B'', ''R1'')]\<rparr>)"
    by code_simp
  from home_room_preferred [OF e i pre slot r dep free]
  obtain r' where r': "room_department r' = course_department (courses ?st ! 1)"
      "r' \<in> set (rooms ?st)"
    and all: "distinct (map course_id (courses ?st)) \<longrightarrow>
              (\<forall>st'. assign_rooms ?st = Inr st' \<longrightarrow>
                 map_of (room_assignments st') (course_id (courses ?st ! 1)) = Some (room_id r'))"
    by blast
  from r' have "room_id r' = ''R1''"
    by (auto simp: cs load_eq)
  with all d fin have "map_of (room_assignments
      (?st\<lparr>room_assignments := [(''A'', ''R1''), (''B'', ''R1'')]\<rparr>)) ''B'' = Some ''R1''"
    by (simp add: load_eq)
  with fin have "\<exists>st'. assign_rooms ?st = Inr st' \<and> map_of (room_assignments st') ''B'' = Some ''R1''"
    by blast
  moreover from pre have "assign_loop ?st (take 1 ?cs) = Inr ?st1"
    by (simp only: cs)
  moreover from free have "is_room_available ?st1 ''R1'' ?ts = Inr True"
    by simp
  ultimately show ?thesis
    by blast
qed

text \<open>A course stays without a room exactly when the scan of the three tiers found
  every room unavailable.\<close>

lemma absent_iff_unavailable:
  assumes "room_assignments st = []" and "distinct (map course_id (courses st))"
    and "i < length (courses st)"
    and "assign_loop st (take i (courses st)) = Inr st_i"
    and "assign_rooms st = Inr st'"
  shows "\<exists>ts. slot_of st (course_id (courses st ! i)) = Inr ts \<and>
     (map_of (room_assignments st') (course_id (courses st ! i)) = None \<longleftrightarrow>
        (\<forall>r \<in> set (department_rooms st_i (courses st ! i)) \<union> set (nab_rooms st_i) \<union>
               set (other_rooms st_i (courses st ! i)).
           is_room_available st_i (room_id r) ts = Inr False))"
proof -
  let ?c = "courses st ! i"
  from assign_loop_inv [OF alloc_inv_empty [OF assms(1)] assms(4)]
  obtain ra where inv: "alloc_inv st_i" and eq: "st_i = st\<lparr>room_assignments := ra\<rparr>"
    by blast
  from assms(5) assign_loop_split [OF assms(3,4)] obtain st1
    where step: "assign_course st_i ?c = Inr st1"
    by (auto simp: assign_rooms_def split: sum.splits)
  from assign_course_step [OF inv step] eq obtain ts
    where ts: "slot_of st (course_id ?c) = Inr ts"
      and st1: "st1 = (case chosen_room st_i ?c ts of
              None \<Rightarrow> st_i
            | Some r \<Rightarrow>
                st_i\<lparr>room_assignments :=
                       AList.update (course_id ?c) (room_id r) (room_assignments st_i)\<rparr>)"
    by auto
  from inv have ok: "keys_ok st_i" "distinct (map fst (room_assignments st_i))"
    by (simp_all add: alloc_inv_def)
  have before: "map_of (room_assignments st_i) (course_id ?c) = None"
    by (rule not_in_keys [OF alloc_inv_empty [OF assms(1)] assms(1,4)
          distinct_ids_later(2) [OF assms(2,3)]])
  have "map_of (room_assignments st') (course_id ?c) = map_of (room_assignments st1) (course_id ?c)"
    by (rule final_entry [OF assms(1,2,3,4) step assms(5)])
  also have "\<dots> = None \<longleftrightarrow> chosen_room st_i ?c ts = None"
    by (cases "chosen_room st_i ?c ts") (simp_all add: st1 before update_conv')
  also have "\<dots> \<longleftrightarrow> (\<forall>r \<in> set (tiers st_i ?c). is_room_available st_i (room_id r) ts = Inr False)"
    by (simp add: chosen_room_None [OF ok] set_tiers)
  finally have main: "map_of (room_assignments st') (course_id ?c) = None \<longleftrightarrow>
        (\<forall>r \<in> set (department_rooms st_i ?c) \<union> set (nab_rooms st_i) \<union> set (other_rooms st_i ?c).
           is_room_available st_i (room_id r) ts = Inr False)"
    by (simp add: tiers_def Un_assoc)
  show ?thesis
    by (rule exI [of _ ts]) (rule conjI [OF ts main])
qed

text \<open>
  Claim C7. With unique course ids and an empty room assignment to start with, a course is
  absent from the room assignment after \<open>assign_rooms\<close> if and only if, in the state in
  which it was processed, every room of each of the three tiers was unavailable at the
  course's slot (held by an already assigned course with an overlapping slot).
\<close>

theorem unscheduled_iff_every_tier_occupied:
  assumes "room_assignments st = []" and "distinct (map course_id (courses st))"
    and "i < length (courses st)"
    and "assign_loop st (take i (courses st)) = Inr st_i"
    and "assign_rooms st = Inr st'"
  shows "\<exists>ts. slot_of st (course_id (courses st ! i)) = Inr ts \<and>
     (map_of (room_assignments st') (course_id (courses st ! i)) = None \<longleftrightarrow>
        (\<forall>r \<in> set (department_rooms st_i (courses st ! i)) \<union> set (nab_rooms st_i) \<union>
               set (other_rooms st_i (courses st ! i)).
           is_room_available st_i (room_id r) ts = Inr False))"
  by (rule absent_iff_unavailable [OF assms])

theorem unscheduled_iff_every_tier_occupied_witness:
  "assign_rooms
     (colored [mk_course ''A'' ''T1'' ''G1'' ''CS'', mk_course ''B'' ''T2'' ''G2'' ''CS'',
               mk_course ''C'' ''T3'' ''G3'' ''CS'', mk_course ''D'' ''T4'' ''G4'' ''CS'']
        [mk_slot ''Monday'' 28800000000 32400000000]
        [mk_room ''R1'' ''CS'', mk_room ''R2'' ''NAB'', mk_room ''R3'' ''EE'']
        [(''A'', 0), (''B'', 0), (''C'', 0), (''D'', 0)]) =
   Inr ((colored [mk_course ''A'' ''T1'' ''G1'' ''CS'', mk_course ''B'' ''T2'' ''G2'' ''CS'',
               mk_course ''C'' ''T3'' ''G3'' ''CS'', mk_course ''D'' ''T4'' ''G4'' ''CS'']
        [mk_slot ''Monday'' 28800000000 32400000000]
        [mk_room ''R1'' ''CS'', mk_room ''R2'' ''NAB'', mk_room ''R3'' ''EE'']
        [(''A'', 0), (''B'', 0), (''C'', 0), (''D'', 0)])
        \<lparr>room_assignments := [(''A'', ''R1''), (''B'', ''R2''), (''C'', ''R3'')]\<rparr>) \<and>
   is_room_available
     ((colored [mk_course ''A'' ''T1'' ''G1'' ''CS'', mk_course ''B'' ''T2'' ''G2'' ''CS'',
               mk_course ''C'' ''T3'' ''G3'' ''CS'', mk_course ''D'' ''T4'' ''G4'' ''CS'']
        [mk_slot ''Monday'' 28800000000 32400000000]
        [mk_room ''R1'' ''CS'', mk_room ''R2'' ''NAB'', mk_room ''R3'' ''EE'']
        [(''A'', 0), (''B'', 0), (''C'', 0), (''D'', 0)])
        \<lparr>room_assignments := [(''A'', ''R1''), (''B'', ''R2''), (''C'', ''R3'')]\<rparr>)
     ''R3'' (mk_slot ''Monday'' 28800000000 32400000000) = Inr False"
  (is "assign_rooms ?st = Inr ?st' \<and> _")
proof -
  let ?cs = "[mk_course ''A'' ''T1'' ''G1'' ''CS'', mk_course ''B'' ''T2'' ''G2'' ''CS'',
               mk_course ''C'' ''T3'' ''G3'' ''CS'', mk_course ''D'' ''T4'' ''G4'' ''CS'']"
  let ?ts = "mk_slot ''Monday'' 28800000000 32400000000"
  have cs: "courses ?st = ?cs"
    by (simp add: load_eq)
  have e: "room_assignments ?st = []"
    by (simp add: load_eq build_conflict_graph_def)
  have d: "distinct (map course_id (courses ?st))"
    by (simp add: load_eq)
  have i: "3 < length (courses ?st)"
    by (simp add: load_eq)
  have pre: "assign_loop ?st (take 3 (courses ?st)) = Inr ?st'"
    unfolding cs by code_simp
  have fin: "assign_rooms ?st = Inr ?st'"
    by code_simp
  have slot: "slot_of ?st (course_id (courses ?st ! 3)) = Inr ?ts"
    unfolding cs by code_simp
  have none: "map_of (room_assignments ?st') (course_id (courses ?st ! 3)) = None"
    by (simp add: load_eq)
  have mem: "mk_room ''R3'' ''EE'' \<in> set (department_rooms ?st' (courses ?st ! 3)) \<union>
      set (nab_rooms ?st') \<union> set (other_rooms ?st' (courses ?st ! 3))"
    unfolding cs by code_simp
  from unscheduled_iff_every_tier_occupied [OF e d i pre fin] slot none
  have "\<forall>r \<in> set (department_rooms ?st' (courses ?st ! 3)) \<union> set (nab_rooms ?st') \<union>
               set (other_rooms ?st' (courses ?st ! 3)).
           is_room_available ?st' (room_id r) ?ts = Inr False"
    by auto
  from this [rule_format, OF mem] have "is_room_available ?st' ''R3'' ?ts = Inr False"
    by simp
  with fin show ?thesis by (rule conjI)
qed

text \<open>
  Claim C10. With unique course ids and an empty room assignment to start with, after
  \<open>assign_rooms\<close> every key of the room assignment is a key of the colour assignment (and
  the id of a registered course), no key occurs twice, and an entry present after \<open>n\<close>
  steps is present, unchanged, after any later number of steps.
\<close>

theorem room_entries_consistent_and_stable:
  assumes "room_assignments st = []" and "distinct (map course_id (courses st))"
    and "assign_rooms st = Inr st'"
  shows "(\<forall>k \<in> fst ` set (room_assignments st').
            k \<in> fst ` set (color_assignments st') \<and> k \<in> course_id ` set (courses st')) \<and>
         distinct (map fst (room_assignments st')) \<and>
         (\<forall>n m st_n st_m k r.
            n \<le> m \<and> assign_loop st (take n (courses st)) = Inr st_n \<and>
            assign_loop st (take m (courses st)) = Inr st_m \<and>
            map_of (room_assignments st_n) k = Some r \<longrightarrow>
            map_of (room_assignments st_m) k = Some r)"
proof (intro conjI ballI allI impI)
  note inv0 = alloc_inv_empty [OF assms(1)]
  from assms(3) have loop: "assign_loop st (courses st) = Inr st'"
    by (simp add: assign_rooms_def)
  from assign_loop_inv [OF inv0 loop]
  obtain ra where inv: "alloc_inv st'" and eq: "st' = st\<lparr>room_assignments := ra\<rparr>"
    by blast
  from inv show "distinct (map fst (room_assignments st'))"
    by (simp add: alloc_inv_def)
  fix k
  assume k: "k \<in> fst ` set (room_assignments st')"
  then obtain r where "map_of (room_assignments st') k = Some r"
    by (metis map_of_eq_None_iff not_Some_eq)
  with inv obtain s where "slot_of st' k = Inr s"
    unfolding alloc_inv_def keys_ok_def by blast
  then have "map_of (color_assignments st') k \<noteq> None"
    by (auto simp: slot_of_def split: option.splits)
  then show "k \<in> fst ` set (color_assignments st')"
    by (simp add: map_of_eq_None_iff)
  from assign_loop_keys [OF inv0 loop] k assms(1) eq show "k \<in> course_id ` set (courses st')"
    by auto
next
  fix n m st_n st_m k r
  assume h: "n \<le> m \<and> assign_loop st (take n (courses st)) = Inr st_n \<and>
            assign_loop st (take m (courses st)) = Inr st_m \<and>
            map_of (room_assignments st_n) k = Some r"
  note inv0 = alloc_inv_empty [OF assms(1)]
  let ?cs = "courses st"
  from h have n: "assign_loop st (take n ?cs) = Inr st_n"
    and m: "assign_loop st (take m ?cs) = Inr st_m" and nm: "n \<le> m"
    and kr: "map_of (room_assignments st_n) k = Some r"
    by simp_all
  from nm have tk: "take m ?cs = take n ?cs @ drop n (take m ?cs)"
    by (metis append_take_drop_id min.absorb1 take_take)
  from m n have rest: "assign_loop st_n (drop n (take m ?cs)) = Inr st_m"
    by (subst (asm) tk) (simp add: assign_loop_append)
  from assign_loop_inv [OF inv0 n] have inv_n: "alloc_inv st_n"
    by blast
  from kr have "k \<in> fst ` set (room_assignments st_n)"
    by (metis map_of_eq_None_iff option.distinct(1))
  with assign_loop_keys [OF inv0 n] assms(1) have kin: "k \<in> course_id ` set (take n ?cs)"
    by auto
  from assms(2) have "distinct (map course_id (take n ?cs) @ map course_id (drop n ?cs))"
    by (metis append_take_drop_id map_append)
  then have "course_id ` set (take n ?cs) \<inter> course_id ` set (drop n ?cs) = {}"
    by auto
  moreover have "set (drop n (take m ?cs)) \<subseteq> set (drop n ?cs)"
    by (metis drop_take set_take_subset)
  ultimately have "k \<notin> course_id ` set (drop n (take m ?cs))"
    using kin by blast
  with assign_loop_inv [OF inv_n rest] kr show "map_of (room_assignments st_m) k = Some r"
    by simp
qed

theorem room_entries_consistent_and_stable_witness:
  "assign_rooms
     (colored [mk_course ''A'' ''T1'' ''G1'' ''CS'', mk_course ''B'' ''T1'' ''G2'' ''CS'']
        [mk_slot ''Monday'' 28800000000 32400000000, mk_slot ''Monday'' 32400000000 36000000000]
        [mk_room ''R1'' ''CS'', mk_room ''R2'' ''NAB''] [(''A'', 0), (''B'', 1)]) =
   Inr ((colored [mk_course ''A'' ''T1'' ''G1'' ''CS'', mk_course ''B'' ''T1'' ''G2'' ''CS'']
        [mk_slot ''Monday'' 28800000000 32400000000, mk_slot ''Monday'' 32400000000 36000000000]
        [mk_room ''R1'' ''CS'', mk_room ''R2'' ''NAB''] [(''A'', 0), (''B'', 1)])
        \<lparr>room_assignments := [(''A'', ''R1''), (''B'', ''R1'')]\<rparr>) \<and>
   assign_loop
     (colored [mk_course ''A'' ''T1'' ''G1'' ''CS'', mk_course ''B'' ''T1'' ''G2'' ''CS'']
        [mk_slot ''Monday'' 28800000000 32400000000, mk_slot ''Monday'' 32400000000 36000000000]
        [mk_room ''R1'' ''CS'', mk_room ''R2'' ''NAB''] [(''A'', 0), (''B'', 1)])
     (take 1 [mk_course ''A'' ''T1'' ''G1'' ''CS'', mk_course ''B'' ''T1'' ''G2'' ''CS'']) =
   Inr ((colored [mk_course ''A'' ''T1'' ''G1'' ''CS'', mk_course ''B'' ''T1'' ''G2'' ''CS'']
        [mk_slot ''Monday'' 28800000000 32400000000, mk_slot ''Monday'' 32400000000 36000000000]
        [mk_room ''R1'' ''CS'', mk_room ''R2'' ''NAB''] [(''A'', 0), (''B'', 1)])
        \<lparr>room_assignments := [(''A'', ''R1'')]\<rparr>) \<and>
   map_of (room_assignments
     ((colored [mk_course ''A'' ''T1'' ''G1'' ''CS'', mk_course ''B'' ''T1'' ''G2'' ''CS'']
        [mk_slot ''Monday'' 28800000000 32400000000, mk_slot ''Monday'' 32400000000 36000000000]
        [mk_room ''R1'' ''CS'', mk_room ''R2'' ''NAB''] [(''A'', 0), (''B'', 1)])
        \<lparr>room_assignments := [(''A'', ''R1''), (''B'', ''R1'')]\<rparr>)) ''A'' = Some ''R1'' \<and>
   ''B'' \<in> fst ` set (color_assignments
     ((colored [mk_course ''A'' ''T1'' ''G1'' ''CS'', mk_course ''B'' ''T1'' ''G2'' ''CS'']
        [mk_slot ''Monday'' 28800000000 32400000000, mk_slot ''Monday'' 32400000000 36000000000]
        [mk_room ''R1'' ''CS'', mk_room ''R2'' ''NAB''] [(''A'', 0), (''B'', 1)])
        \<lparr>room_assignments := [(''A'', ''R1''), (''B'', ''R1'')]\<rparr>))"
  (is "assign_rooms ?st = Inr ?st2 \<and> assign_loop _ (take 1 ?cs) = Inr ?st1 \<and> _ \<and> _")
proof -
  have cs: "courses ?st = ?cs"
    by (simp add: load_eq)
  have e: "room_assignments ?st = []"
    by (simp add: load_eq build_conflict_graph_def)
  have d: "distinct (map course_id (courses ?st))"
    by (simp add: load_eq)
  have fin: "assign_rooms ?st = Inr ?st2"
    by code_simp
  have one: "assign_loop ?st (take 1 (courses ?st)) = Inr ?st1"
    unfolding cs by code_simp
  have two: "assign_loop ?st (take 2 (courses ?st)) = Inr ?st2"
    unfolding cs by code_simp
  note t = room_entries_consistent_and_stable [OF e d fin]
  from t have keys: "\<forall>k \<in> fst ` set (room_assignments ?st2).
      k \<in> fst ` set (color_assignments ?st2) \<and> k \<in> course_id ` set (courses ?st2)"
    by (rule conjunct1)
  have "''B'' \<in> fst ` set (room_assignments ?st2)"
    by simp
  with keys have b: "''B'' \<in> fst ` set (color_assignments ?st2)"
    by blast
  from t have "\<forall>n m st_n st_m k r.
            n \<le> m \<and> assign_loop ?st (take n (courses ?st)) = Inr st_n \<and>
            assign_loop ?st (take m (courses ?st)) = Inr st_m \<and>
            map_of (room_assignments st_n) k = Some r \<longrightarrow>
            map_of (room_assignments st_m) k = Some r"
    by (rule conjunct2 [THEN conjunct2])
  from this [rule_format, of 1 2 ?st1 ?st2 "''A''" "''R1''"] one two
  have a: "map_of (room_assignments ?st2) ''A'' = Some ''R1''"
    by simp
  from one have "assign_loop ?st (take 1 ?cs) = Inr ?st1"
    by (simp only: cs)
  with fin a b show ?thesis
    by blast
qed

section \<open>The report and the whole run\<close>

subsection \<open>Looking a room up by its id\<close>

lemma lookup_room_empty [simp]: "lookup_room ra k [] = Inl StopIteration"
  by simp

lemma lookup_room_missing:
  "map_of ra k = None \<Longrightarrow> rs \<noteq> [] \<Longrightarrow> lookup_room ra k rs = Inl KeyError"
  by (cases rs) simp_all

lemma lookup_room_found:
  "map_of ra k = Some rid \<Longrightarrow> rid \<in> room_id ` set rs \<Longrightarrow>
   \<exists>r. lookup_room ra k rs = Inr r \<and> r \<in> set rs \<and> room_id r = rid"
  by (induction rs) auto

lemma lookup_room_Inr:
  "lookup_room ra k rs = Inr r \<Longrightarrow> r \<in> set rs \<and> map_of ra k = Some (room_id r)"
  by (induction rs) (auto split: option.splits if_splits)

subsection \<open>Schedule compilation changes the two schedule maps only\<close>

lemma slot_of_schedules [simp]:
  "slot_of (st\<lparr>teacher_schedules := a, student_schedules := b\<rparr>) k = slot_of st k"
  by (simp add: slot_of_def split: option.splits)

lemma collect_loop_frame:
  "collect_loop st cs = Inr st' \<Longrightarrow>
   \<exists>a b. st' = st\<lparr>teacher_schedules := a, student_schedules := b\<rparr>"
proof (induction cs arbitrary: st)
  case Nil
  have "st = st\<lparr>teacher_schedules := teacher_schedules st,
      student_schedules := student_schedules st\<rparr>"
    by simp
  with Nil show ?case by (metis collect_loop.simps(1) sum.inject(2))
next
  case (Cons c cs)
  show ?case
  proof (cases "map_of (room_assignments st) (course_id c)")
    case None
    with Cons.prems have "collect_loop st cs = Inr st'" by simp
    from Cons.IH [OF this] show ?thesis .
  next
    case (Some rid)
    with Cons.prems obtain ts room where
      "collect_loop
         (st\<lparr>teacher_schedules :=
               append_entry (teacher c) (c, ts, room) (teacher_schedules st),
             student_schedules :=
               append_entry (student_group c) (c, ts, room) (student_schedules st)\<rparr>) cs = Inr st'"
      by (auto split: sum.splits)
    from Cons.IH [OF this] show ?thesis by auto
  qed
qed

lemma collect_loop_total:
  assumes "\<forall>k rid. map_of (room_assignments st) k = Some rid \<longrightarrow>
      (\<exists>s. slot_of st k = Inr s) \<and> rid \<in> room_id ` set (rooms st)"
  shows "\<exists>st'. collect_loop st cs = Inr st'"
  using assms
proof (induction cs arbitrary: st)
  case Nil
  show ?case by simp
next
  case (Cons c cs)
  show ?case
  proof (cases "map_of (room_assignments st) (course_id c)")
    case None
    with Cons.IH [OF Cons.prems] show ?thesis by simp
  next
    case (Some rid)
    with Cons.prems obtain s where s: "slot_of st (course_id c) = Inr s"
      and rid: "rid \<in> room_id ` set (rooms st)"
      by blast
    from lookup_room_found [OF Some rid] obtain r
      where r: "lookup_room (room_assignments st) (course_id c) (rooms st) = Inr r"
      by blast
    let ?st = "st\<lparr>teacher_schedules :=
               append_entry (teacher c) (c, s, r) (teacher_schedules st),
             student_schedules :=
               append_entry (student_group c) (c, s, r) (student_schedules st)\<rparr>"
    from Cons.prems have "\<forall>k rid. map_of (room_assignments ?st) k = Some rid \<longrightarrow>
      (\<exists>s. slot_of ?st k = Inr s) \<and> rid \<in> room_id ` set (rooms ?st)"
      by simp
    from Cons.IH [OF this] Some s r show ?thesis by simp
  qed
qed

lemma optimize_schedules_total:
  assumes "\<forall>k rid. map_of (room_assignments st) k = Some rid \<longrightarrow>
      (\<exists>s. slot_of st k = Inr s) \<and> rid \<in> room_id ` set (rooms st)"
  shows "\<exists>a b. optimize_schedules st = Inr (st\<lparr>teacher_schedules := a, student_schedules := b\<rparr>)"
proof -
  from collect_loop_total [OF assms] obtain st' where c: "collect_loop st (courses st) = Inr st'"
    by blast
  from collect_loop_frame [OF c] obtain a b
    where "st' = st\<lparr>teacher_schedules := a, student_schedules := b\<rparr>"
    by blast
  with c have "optimize_schedules st =
      Inr (st\<lparr>teacher_schedules := sort_schedules a, student_schedules := sort_schedules b\<rparr>)"
    by (simp add: optimize_schedules_def)
  then show ?thesis
    by blast
qed

subsection \<open>The course lines of the report\<close>

lemma course_lines_schedules [simp]:
  "course_lines (st\<lparr>teacher_schedules := a, student_schedules := b\<rparr>) cs = course_lines st cs"
  by (induction cs) (simp_all split: sum.splits)

lemma course_lines_ok:
  assumes "\<forall>c \<in> set cs. \<exists>s. slot_of st (course_id c) = Inr s"
    and "\<forall>k rid. map_of (room_assignments st) k = Some rid \<longrightarrow> rid \<in> room_id ` set (rooms st)"
    and "\<forall>c \<in> set cs. map_of (room_assignments st) (course_id c) \<noteq> None"
  shows "\<exists>ls. course_lines st cs = Inr ls"
  using assms(1,3)
proof (induction cs)
  case Nil
  show ?case by simp
next
  case (Cons c cs)
  from Cons.prems obtain s rid where s: "slot_of st (course_id c) = Inr s"
    and rid: "map_of (room_assignments st) (course_id c) = Some rid"
    by auto
  from assms(2) rid have "rid \<in> room_id ` set (rooms st)" by blast
  from lookup_room_found [OF rid this] obtain r
    where r: "lookup_room (room_assignments st) (course_id c) (rooms st) = Inr r"
    by blast
  from Cons.IH Cons.prems obtain ls where "course_lines st cs = Inr ls"
    by auto
  with s r show ?case by simp
qed

lemma course_lines_missing:
  assumes "\<forall>c \<in> set cs. \<exists>s. slot_of st (course_id c) = Inr s"
    and "\<forall>k rid. map_of (room_assignments st) k = Some rid \<longrightarrow> rid \<in> room_id ` set (rooms st)"
    and "\<exists>c \<in> set cs. map_of (room_assignments st) (course_id c) = None"
  shows "course_lines st cs = Inl (if rooms st = [] then StopIteration else KeyError)"
  using assms(1,3)
proof (induction cs)
  case Nil
  then show ?case by simp
next
  case (Cons c cs)
  from Cons.prems obtain s where s: "slot_of st (course_id c) = Inr s"
    by auto
  show ?case
  proof (cases "map_of (room_assignments st) (course_id c)")
    case None
    show ?thesis
    proof (cases "rooms st = []")
      case True
      with s show ?thesis by simp
    next
      case False
      with lookup_room_missing [OF None False] s show ?thesis by simp
    qed
  next
    case (Some rid)
    from assms(2) Some have "rid \<in> room_id ` set (rooms st)" by blast
    from lookup_room_found [OF Some this] obtain r
      where r: "lookup_room (room_assignments st) (course_id c) (rooms st) = Inr r"
      by blast
    from Some Cons.prems have "\<exists>c \<in> set cs. map_of (room_assignments st) (course_id c) = None"
      by auto
    with Cons.IH Cons.prems
    have "course_lines st cs = Inl (if rooms st = [] then StopIteration else KeyError)"
      by auto
    with s r show ?thesis by simp
  qed
qed

subsection \<open>Every course is coloured within the palette\<close>

lemma colored_slots:
  assumes "welsh_powell_coloring (build_conflict_graph (load cs ts rs)) = Inr colors"
    and "c \<in> set cs"
  shows "\<exists>s. slot_of (colored cs ts rs colors) (course_id c) = Inr s"
proof -
  let ?g = "graph (build_conflict_graph (load cs ts rs))"
  from assms(1) have loop: "color_loop ?g (length ts) (vertices ?g) [] = Inr colors"
    by (simp add: welsh_powell_coloring_def load_eq)
  from color_loop_dom [OF loop] assms(2) have "course_id c \<in> fst ` set colors"
    by (simp add: set_nodes_built)
  then obtain k where k: "map_of colors (course_id c) = Some k"
    by (metis map_of_eq_None_iff not_Some_eq)
  from color_loop_range [OF loop _ k] have "k < length ts"
    by simp
  with k show ?thesis
    by (simp add: slot_of_def load_eq)
qed

lemma colored_fields:
  "courses (colored cs ts rs colors) = cs"
  "time_slots (colored cs ts rs colors) = ts"
  "rooms (colored cs ts rs colors) = rs"
  "room_assignments (colored cs ts rs colors) = []"
  by (simp_all add: load_eq build_conflict_graph_def)

text \<open>
  Claim C4, as amended. Once the colouring stage has completed, \<open>assign_rooms\<close> and
  \<open>optimize_schedules\<close> complete without an exception; a course for which every room of
  the three tiers was unavailable when it was processed is left without an entry in the room
  assignment (unique ids); and if some course is without an entry, \<open>generate_timetable\<close>
  does not return: \<open>_format_timetable\<close> raises \<open>KeyError\<close> (\<open>StopIteration\<close> when
  there is no room at all). It returns its text exactly when every course has a room.
\<close>

theorem unassigned_course_stops_report:
  assumes "welsh_powell_coloring (build_conflict_graph (load cs ts rs)) = Inr colors"
  shows "\<exists>st3 a b. assign_rooms (colored cs ts rs colors) = Inr st3 \<and>
           optimize_schedules st3 = Inr (st3\<lparr>teacher_schedules := a, student_schedules := b\<rparr>) \<and>
           (\<forall>i st_i s. distinct (map course_id cs) \<and> i < length cs \<and>
                assign_loop (colored cs ts rs colors) (take i cs) = Inr st_i \<and>
                slot_of (colored cs ts rs colors) (course_id (cs ! i)) = Inr s \<and>
                (\<forall>r \<in> set (department_rooms st_i (cs ! i)) \<union> set (nab_rooms st_i) \<union>
                       set (other_rooms st_i (cs ! i)).
                   is_room_available st_i (room_id r) s = Inr False) \<longrightarrow>
                map_of (room_assignments st3) (course_id (cs ! i)) = None) \<and>
           ((\<exists>c \<in> set cs. map_of (room_assignments st3) (course_id c) = None) \<longrightarrow>
              generate_timetable (load cs ts rs) =
                Inl (if rs = [] then StopIteration else KeyError)) \<and>
           ((\<forall>c \<in> set cs. map_of (room_assignments st3) (course_id c) \<noteq> None) \<longrightarrow>
              (\<exists>text. generate_timetable (load cs ts rs) =
                 Inr (st3\<lparr>teacher_schedules := a, student_schedules := b\<rparr>, text)))"
proof -
  let ?st2 = "colored cs ts rs colors"
  note f = colored_fields [where cs = cs and ts = ts and rs = rs and colors = colors]
  have inv2: "alloc_inv ?st2"
    by (rule alloc_inv_empty) (rule f(4))
  from colored_slots [OF assms]
  have slots2: "\<forall>c \<in> set cs. \<exists>s. slot_of ?st2 (course_id c) = Inr s"
    by blast
  from assign_loop_total [OF inv2 slots2] obtain st3 where loop: "assign_loop ?st2 cs = Inr st3"
    by blast
  then have run3: "assign_rooms ?st2 = Inr st3"
    by (simp add: assign_rooms_def f(1))
  from assign_loop_inv [OF inv2 loop] obtain ra where inv3: "alloc_inv st3"
    and eq3: "st3 = ?st2\<lparr>room_assignments := ra\<rparr>"
    by blast
  from eq3 have f3: "courses st3 = cs" "rooms st3 = rs"
    by (simp_all add: load_eq)
  from eq3 slots2 have slots3: "\<forall>c \<in> set cs. \<exists>s. slot_of st3 (course_id c) = Inr s"
    by simp
  from inv3 have known: "\<forall>k rid. map_of (room_assignments st3) k = Some rid \<longrightarrow>
      rid \<in> room_id ` set (rooms st3)"
    by (simp add: alloc_inv_def)
  from inv3 have "\<forall>k rid. map_of (room_assignments st3) k = Some rid \<longrightarrow>
      (\<exists>s. slot_of st3 k = Inr s) \<and> rid \<in> room_id ` set (rooms st3)"
    unfolding alloc_inv_def keys_ok_def by blast
  from optimize_schedules_total [OF this] obtain a b
    where run4: "optimize_schedules st3 = Inr (st3\<lparr>teacher_schedules := a, student_schedules := b\<rparr>)"
    by blast
  let ?st4 = "st3\<lparr>teacher_schedules := a, student_schedules := b\<rparr>"
  have gen: "generate_timetable (load cs ts rs) =
      (case format_timetable ?st4 of Inl e \<Rightarrow> Inl e | Inr text \<Rightarrow> Inr (?st4, text))"
    by (simp add: generate_timetable_def Let_def assms run3 run4)
  have fmt: "format_timetable ?st4 =
      (case course_lines st3 cs of
        Inl e \<Rightarrow> Inl e
      | Inr ls \<Rightarrow>
          Inr (join [CHR 0x0A]
            (''Course Assignments:'' # ls @
             (CHR 0x0A # ''Teacher Schedules:'') # schedule_lines a @
             (CHR 0x0A # ''Student Group Schedules:'') # schedule_lines b)))"
    by (simp add: format_timetable_def f3 split: sum.splits)
  have absent: "map_of (room_assignments st3) (course_id (cs ! i)) = None"
    if h: "distinct (map course_id cs) \<and> i < length cs \<and>
                assign_loop ?st2 (take i cs) = Inr st_i \<and>
                slot_of ?st2 (course_id (cs ! i)) = Inr s \<and>
                (\<forall>r \<in> set (department_rooms st_i (cs ! i)) \<union> set (nab_rooms st_i) \<union>
                       set (other_rooms st_i (cs ! i)).
                   is_room_available st_i (room_id r) s = Inr False)" for i st_i s
  proof -
    from h have d: "distinct (map course_id (courses ?st2))" and i: "i < length (courses ?st2)"
      and pre: "assign_loop ?st2 (take i (courses ?st2)) = Inr st_i"
      by (simp_all add: f(1))
    from absent_iff_unavailable [OF f(4) d i pre run3] h show ?thesis
      by (auto simp: f(1))
  qed
  have missing: "generate_timetable (load cs ts rs) =
                Inl (if rs = [] then StopIteration else KeyError)"
    if "\<exists>c \<in> set cs. map_of (room_assignments st3) (course_id c) = None"
    using course_lines_missing [OF slots3 known that] by (simp add: gen fmt f3)
  have complete: "\<exists>text. generate_timetable (load cs ts rs) = Inr (?st4, text)"
    if "\<forall>c \<in> set cs. map_of (room_assignments st3) (course_id c) \<noteq> None"
  proof -
    from course_lines_ok [OF slots3 known that] obtain ls where "course_lines st3 cs = Inr ls"
      by blast
    then show ?thesis
      by (simp add: gen fmt)
  qed
  from run3 run4 absent missing complete show ?thesis
    by blast
qed

theorem unassigned_course_stops_report_witness:
  "welsh_powell_coloring (build_conflict_graph (load
      [mk_course ''A'' ''T1'' ''G1'' ''CS'', mk_course ''B'' ''T2'' ''G2'' ''CS'',
       mk_course ''C'' ''T3'' ''G3'' ''EE'']
      [mk_slot ''Monday'' 28800000000 32400000000]
      [mk_room ''R1'' ''CS'', mk_room ''R2'' ''NAB''])) =
     Inr [(''A'', 0), (''B'', 0), (''C'', 0)] \<and>
   assign_rooms (colored
      [mk_course ''A'' ''T1'' ''G1'' ''CS'', mk_course ''B'' ''T2'' ''G2'' ''CS'',
       mk_course ''C'' ''T3'' ''G3'' ''EE'']
      [mk_slot ''Monday'' 28800000000 32400000000]
      [mk_room ''R1'' ''CS'', mk_room ''R2'' ''NAB'']
      [(''A'', 0), (''B'', 0), (''C'', 0)]) =
     Inr ((colored
      [mk_course ''A'' ''T1'' ''G1'' ''CS'', mk_course ''B'' ''T2'' ''G2'' ''CS'',
       mk_course ''C'' ''T3'' ''G3'' ''EE'']
      [mk_slot ''Monday'' 28800000000 32400000000]
      [mk_room ''R1'' ''CS'', mk_room ''R2'' ''NAB'']
      [(''A'', 0), (''B'', 0), (''C'', 0)])\<lparr>room_assignments := [(''A'', ''R1''), (''B'', ''R2'')]\<rparr>) \<and>
   generate_timetable (load
      [mk_course ''A'' ''T1'' ''G1'' ''CS'', mk_course ''B'' ''T2'' ''G2'' ''CS'',
       mk_course ''C'' ''T3'' ''G3'' ''EE'']
      [mk_slot ''Monday'' 28800000000 32400000000]
      [mk_room ''R1'' ''CS'', mk_room ''R2'' ''NAB'']) = Inl KeyError"
  (is "welsh_powell_coloring (build_conflict_graph (load ?cs ?ts ?rs)) = Inr ?colors \<and>
       assign_rooms ?st2 = Inr ?st3 \<and> _")
proof -
  have col: "welsh_powell_coloring (build_conflict_graph (load ?cs ?ts ?rs)) = Inr ?colors"
    by code_simp
  have run: "assign_rooms ?st2 = Inr ?st3"
    by code_simp
  from unassigned_course_stops_report [OF col] run
  have "(\<exists>c \<in> set ?cs. map_of (room_assignments ?st3) (course_id c) = None) \<longrightarrow>
      generate_timetable (load ?cs ?ts ?rs) = Inl (if ?rs = [] then StopIteration else KeyError)"
    by auto
  moreover have "\<exists>c \<in> set ?cs. map_of (room_assignments ?st3) (course_id c) = None"
    by simp
  ultimately have "generate_timetable (load ?cs ?ts ?rs) = Inl KeyError"
    by simp
  with col run show ?thesis
    by blast
qed

text \<open>The fourth example scenario of the specification: two courses of one department in
  the same slot and a single room. The second course gets no room and the run ends with
  \<open>KeyError\<close>.\<close>

theorem unassigned_course_counterexample:
  "generate_timetable (load
      [mk_course ''A'' ''T1'' ''G1'' ''CS'', mk_course ''B'' ''T2'' ''G2'' ''CS'']
      [mk_slot ''Monday'' 28800000000 32400000000] [mk_room ''R1'' ''CS'']) = Inl KeyError"
  by code_simp

section \<open>The order of the compiled schedules\<close>

subsection \<open>Appending to a schedule\<close>

lemma map_of_append_entry:
  "map_of (append_entry k x s) k' =
     (if k' = k then Some ((case map_of s k of None \<Rightarrow> [] | Some xs \<Rightarrow> xs) @ [x])
      else map_of s k')"
  by (cases "map_of s k")
     (auto simp: append_entry_def update_conv' map_of_append map_add_def split: option.splits)

lemma map_of_fold_append_entry:
  "map_of (fold (\<lambda>e. append_entry (f e) e) es s) k =
     (if filter (\<lambda>e. f e = k) es = [] then map_of s k
      else Some ((case map_of s k of None \<Rightarrow> [] | Some xs \<Rightarrow> xs) @ filter (\<lambda>e. f e = k) es))"
  by (induction es arbitrary: s) (auto simp: map_of_append_entry split: option.splits)

lemma map_of_sort_schedules:
  "map_of (sort_schedules s) k = map_option (sort_key entry_start) (map_of s k)"
  by (induction s) (auto simp: sort_schedules_def)

subsection \<open>The entries collected by the loop\<close>

lemma entry_of_schedules [simp]:
  "entry_of (st\<lparr>teacher_schedules := a, student_schedules := b\<rparr>) c = entry_of st c"
  by (simp add: entry_of_def split: option.splits sum.splits)

lemma entries_of_schedules [simp]:
  "entries_of (st\<lparr>teacher_schedules := a, student_schedules := b\<rparr>) cs = entries_of st cs"
proof -
  have "entry_of (st\<lparr>teacher_schedules := a, student_schedules := b\<rparr>) = entry_of st"
    by (rule ext) simp
  then show ?thesis
    by (simp add: entries_of_def)
qed

lemma entries_of_Nil [simp]: "entries_of st [] = []"
  by (simp add: entries_of_def)

lemma entries_of_Cons:
  "entries_of st (c # cs) =
     (case entry_of st c of None \<Rightarrow> entries_of st cs | Some e \<Rightarrow> e # entries_of st cs)"
  by (simp add: entries_of_def split: option.splits)

lemma entry_of_Some:
  "entry_of st c = Some e \<Longrightarrow>
   fst e = c \<and> map_of (room_assignments st) (course_id c) = Some (room_id (snd (snd e))) \<and>
   slot_of st (course_id c) = Inr (fst (snd e))"
  by (auto simp: entry_of_def split: option.splits sum.splits dest: lookup_room_Inr)

lemma entries_of_mem:
  "e \<in> set (entries_of st cs) \<Longrightarrow> \<exists>c \<in> set cs. entry_of st c = Some e"
  by (induction cs) (auto simp: entries_of_Cons split: option.splits)

lemma map_fst_entries_of:
  "map fst (entries_of st cs) = filter (\<lambda>c. entry_of st c \<noteq> None) cs"
  by (induction cs) (auto simp: entries_of_Cons dest: entry_of_Some split: option.splits)

lemma entries_of_before:
  assumes "entries_of st cs = as @ a # bs @ b # zs"
  shows "\<exists>as' bs' zs'. cs = as' @ fst a # bs' @ fst b # zs'"
proof -
  from assms have "map fst (entries_of st cs) = map fst as @ fst a # map fst bs @ fst b # map fst zs"
    by simp
  then have "filter (\<lambda>c. entry_of st c \<noteq> None) cs =
      map fst as @ fst a # map fst bs @ fst b # map fst zs"
    by (simp add: map_fst_entries_of)
  then show ?thesis
    by (rule filter_before)
qed

lemma collect_loop_schedules:
  "collect_loop st cs = Inr st' \<Longrightarrow>
   teacher_schedules st' =
     fold (\<lambda>e. append_entry (teacher (fst e)) e) (entries_of st cs) (teacher_schedules st) \<and>
   student_schedules st' =
     fold (\<lambda>e. append_entry (student_group (fst e)) e) (entries_of st cs) (student_schedules st)"
proof (induction cs arbitrary: st)
  case Nil
  then show ?case by auto
next
  case (Cons c cs)
  show ?case
  proof (cases "map_of (room_assignments st) (course_id c)")
    case None
    then have e: "entry_of st c = None" by (simp add: entry_of_def)
    from None Cons.prems have "collect_loop st cs = Inr st'" by simp
    from Cons.IH [OF this] e show ?thesis by (simp add: entries_of_Cons)
  next
    case (Some rid)
    with Cons.prems obtain ts room where ts: "slot_of st (course_id c) = Inr ts"
      and room: "lookup_room (room_assignments st) (course_id c) (rooms st) = Inr room"
      and rest: "collect_loop
         (st\<lparr>teacher_schedules :=
               append_entry (teacher c) (c, ts, room) (teacher_schedules st),
             student_schedules :=
               append_entry (student_group c) (c, ts, room) (student_schedules st)\<rparr>) cs = Inr st'"
      by (auto split: sum.splits)
    from Some ts room have e: "entry_of st c = Some (c, ts, room)"
      by (simp add: entry_of_def)
    from Cons.IH [OF rest] e show ?thesis
      by (simp add: entries_of_Cons)
  qed
qed

lemma collect_loop_entries:
  "collect_loop st cs = Inr st' \<Longrightarrow> c \<in> set cs \<Longrightarrow>
   map_of (room_assignments st) (course_id c) \<noteq> None \<Longrightarrow> entry_of st c \<noteq> None"
proof (induction cs arbitrary: st)
  case Nil
  then show ?case by simp
next
  case (Cons c0 cs)
  show ?case
  proof (cases "map_of (room_assignments st) (course_id c0)")
    case None
    with Cons.prems have "collect_loop st cs = Inr st'" "c \<in> set cs"
      by auto
    from Cons.IH [OF this Cons.prems(3)] show ?thesis .
  next
    case (Some rid)
    with Cons.prems(1) obtain ts room where ts: "slot_of st (course_id c0) = Inr ts"
      and room: "lookup_room (room_assignments st) (course_id c0) (rooms st) = Inr room"
      and rest: "collect_loop
         (st\<lparr>teacher_schedules :=
               append_entry (teacher c0) (c0, ts, room) (teacher_schedules st),
             student_schedules :=
               append_entry (student_group c0) (c0, ts, room) (student_schedules st)\<rparr>) cs = Inr st'"
      by (auto split: sum.splits)
    show ?thesis
    proof (cases "c = c0")
      case True
      with Some ts room show ?thesis by (simp add: entry_of_def)
    next
      case False
      with Cons.prems(2) have "c \<in> set cs" by simp
      from Cons.IH [OF rest this] Cons.prems(3) show ?thesis by simp
    qed
  qed
qed

lemma entries_of_memI:
  "c \<in> set cs \<Longrightarrow> entry_of st c = Some e \<Longrightarrow> e \<in> set (entries_of st cs)"
  by (induction cs) (auto simp: entries_of_Cons split: option.splits)

text \<open>What holds of a stably sorted selection of the collected entries.\<close>

lemma sorted_selection:
  assumes "sched = sort_key entry_start (filter P (entries_of st cs))"
  shows "sorted (map entry_start sched)"
    and "sched = as @ a # bs @ b # zs \<Longrightarrow> entry_start a = entry_start b \<Longrightarrow>
         \<exists>as' bs' zs'. cs = as' @ fst a # bs' @ fst b # zs'"
    and "(c, ts, r) \<in> set sched \<Longrightarrow>
         c \<in> set cs \<and> map_of (room_assignments st) (course_id c) = Some (room_id r) \<and>
         slot_of st (course_id c) = Inr ts"
proof -
  show "sorted (map entry_start sched)"
    unfolding assms by (rule sorted_sort_key)
next
  assume d: "sched = as @ a # bs @ b # zs" and eq: "entry_start a = entry_start b"
  from d assms have "sort_key entry_start (filter P (entries_of st cs)) = as @ a # bs @ b # zs"
    by simp
  from sort_key_order(2) [OF this eq] obtain as1 bs1 zs1
    where "filter P (entries_of st cs) = as1 @ a # bs1 @ b # zs1"
    by blast
  from filter_before [OF this] obtain as2 bs2 zs2
    where "entries_of st cs = as2 @ a # bs2 @ b # zs2"
    by blast
  then show "\<exists>as' bs' zs'. cs = as' @ fst a # bs' @ fst b # zs'"
    by (rule entries_of_before)
next
  assume "(c, ts, r) \<in> set sched"
  with assms have "(c, ts, r) \<in> set (entries_of st cs)"
    by simp
  from entries_of_mem [OF this] obtain c' where c': "c' \<in> set cs"
    and e: "entry_of st c' = Some (c, ts, r)"
    by blast
  from entry_of_Some [OF e] c'
  show "c \<in> set cs \<and> map_of (room_assignments st) (course_id c) = Some (room_id r) \<and>
         slot_of st (course_id c) = Inr ts"
    by simp
qed

lemma optimize_schedules_result:
  assumes "teacher_schedules st = []" and "student_schedules st = []"
    and "optimize_schedules st = Inr st'"
  shows "map_of (teacher_schedules st') key =
           (if filter (\<lambda>e. teacher (fst e) = key) (entries_of st (courses st)) = [] then None
            else Some (sort_key entry_start
                   (filter (\<lambda>e. teacher (fst e) = key) (entries_of st (courses st)))))"
    and "map_of (student_schedules st') key =
           (if filter (\<lambda>e. student_group (fst e) = key) (entries_of st (courses st)) = [] then None
            else Some (sort_key entry_start
                   (filter (\<lambda>e. student_group (fst e) = key) (entries_of st (courses st)))))"
    and "c \<in> set (courses st) \<Longrightarrow> map_of (room_assignments st) (course_id c) \<noteq> None \<Longrightarrow>
         \<exists>e. entry_of st c = Some e"
proof -
  from assms(3) obtain st1 where c: "collect_loop st (courses st) = Inr st1"
    and st': "st' = st1\<lparr>teacher_schedules := sort_schedules (teacher_schedules st1),
                   student_schedules := sort_schedules (student_schedules st1)\<rparr>"
    by (auto simp: optimize_schedules_def split: sum.splits)
  note s = collect_loop_schedules [OF c]
  show "map_of (teacher_schedules st') key =
           (if filter (\<lambda>e. teacher (fst e) = key) (entries_of st (courses st)) = [] then None
            else Some (sort_key entry_start
                   (filter (\<lambda>e. teacher (fst e) = key) (entries_of st (courses st)))))"
    by (simp add: st' map_of_sort_schedules s assms(1) map_of_fold_append_entry)
  show "map_of (student_schedules st') key =
           (if filter (\<lambda>e. student_group (fst e) = key) (entries_of st (courses st)) = [] then None
            else Some (sort_key entry_start
                   (filter (\<lambda>e. student_group (fst e) = key) (entries_of st (courses st)))))"
    by (simp add: st' map_of_sort_schedules s assms(2) map_of_fold_append_entry)
  assume "c \<in> set (courses st)" "map_of (room_assignments st) (course_id c) \<noteq> None"
  from collect_loop_entries [OF c this] show "\<exists>e. entry_of st c = Some e"
    by blast
qed

text \<open>
  Claim C9, as amended. After \<open>optimize_schedules\<close> on a generator whose schedules were
  empty, every per-teacher and every per-student-group sequence is sorted ascending by the
  start time of the slot alone (the day is not looked at); entries of equal start time stand
  in the order in which their courses were registered; every entry is a registered course
  with its slot and its assigned room; a course without an entry in the room assignment
  appears in no schedule, and a course with one appears in the schedules of its teacher and
  of its student group.
\<close>

theorem schedules_sorted_by_start_time:
  assumes "teacher_schedules st = []" and "student_schedules st = []"
    and "optimize_schedules st = Inr st'"
  shows "(\<forall>key sched.
            map_of (teacher_schedules st') key = Some sched \<or>
            map_of (student_schedules st') key = Some sched \<longrightarrow>
            sorted (map entry_start sched) \<and>
            (\<forall>as a bs b zs. sched = as @ a # bs @ b # zs \<and> entry_start a = entry_start b \<longrightarrow>
               (\<exists>as' bs' zs'. courses st = as' @ fst a # bs' @ fst b # zs')) \<and>
            (\<forall>c ts r. (c, ts, r) \<in> set sched \<longrightarrow>
               c \<in> set (courses st) \<and>
               map_of (room_assignments st) (course_id c) = Some (room_id r) \<and>
               slot_of st (course_id c) = Inr ts) \<and>
            (\<forall>c. map_of (room_assignments st) (course_id c) = None \<longrightarrow> c \<notin> fst ` set sched)) \<and>
         (\<forall>c \<in> set (courses st). map_of (room_assignments st) (course_id c) \<noteq> None \<longrightarrow>
            (\<exists>sched_t sched_g.
               map_of (teacher_schedules st') (teacher c) = Some sched_t \<and> c \<in> fst ` set sched_t \<and>
               map_of (student_schedules st') (student_group c) = Some sched_g \<and>
               c \<in> fst ` set sched_g))"
proof (intro conjI allI impI ballI)
  fix key sched
  assume h: "map_of (teacher_schedules st') key = Some sched \<or>
            map_of (student_schedules st') key = Some sched"
  note r = optimize_schedules_result [OF assms]
  from h obtain P where sel: "sched = sort_key entry_start (filter P (entries_of st (courses st)))"
  proof
    assume "map_of (teacher_schedules st') key = Some sched"
    with r(1) [of key] have "sched = sort_key entry_start
        (filter (\<lambda>e. teacher (fst e) = key) (entries_of st (courses st)))"
      by (simp split: if_splits)
    then show ?thesis by (rule that)
  next
    assume "map_of (student_schedules st') key = Some sched"
    with r(2) [of key] have "sched = sort_key entry_start
        (filter (\<lambda>e. student_group (fst e) = key) (entries_of st (courses st)))"
      by (simp split: if_splits)
    then show ?thesis by (rule that)
  qed
  note p = sorted_selection [OF sel]
  from p(1) show "sorted (map entry_start sched)" .
  {
    fix as a bs b zs
    assume "sched = as @ a # bs @ b # zs \<and> entry_start a = entry_start b"
    then show "\<exists>as' bs' zs'. courses st = as' @ fst a # bs' @ fst b # zs'"
      using p(2) by blast
  }
  {
    fix c ts r
    assume m: "(c, ts, r) \<in> set sched"
    from p(3) [OF m] show "c \<in> set (courses st)"
      and "map_of (room_assignments st) (course_id c) = Some (room_id r)"
      and "slot_of st (course_id c) = Inr ts"
      by simp_all
  }
  {
    fix c :: Course
    assume n: "map_of (room_assignments st) (course_id c) = None"
    show "c \<notin> fst ` set sched"
    proof
      assume "c \<in> fst ` set sched"
      then obtain ts r where "(c, ts, r) \<in> set sched" by force
      from p(3) [OF this] n show False by simp
    qed
  }
next
  fix c
  assume c: "c \<in> set (courses st)" and m: "map_of (room_assignments st) (course_id c) \<noteq> None"
  note r = optimize_schedules_result [OF assms]
  from r(3) [OF c m] obtain e where e: "entry_of st c = Some e" by blast
  from entry_of_Some [OF e] have fe: "fst e = c" by simp
  from entries_of_memI [OF c e] have mem: "e \<in> set (entries_of st (courses st))" .
  let ?t = "filter (\<lambda>e. teacher (fst e) = teacher c) (entries_of st (courses st))"
  let ?g = "filter (\<lambda>e. student_group (fst e) = student_group c) (entries_of st (courses st))"
  from mem fe have et: "e \<in> set ?t" and eg: "e \<in> set ?g" by simp_all
  then have "?t \<noteq> []" "?g \<noteq> []" by (metis empty_iff empty_set)+
  with r(1) [of "teacher c"] r(2) [of "student_group c"]
  have "map_of (teacher_schedules st') (teacher c) = Some (sort_key entry_start ?t)"
    and "map_of (student_schedules st') (student_group c) = Some (sort_key entry_start ?g)"
    by simp_all
  moreover from et fe have "c \<in> fst ` set (sort_key entry_start ?t)" by force
  moreover from eg fe have "c \<in> fst ` set (sort_key entry_start ?g)" by force
  ultimately show "\<exists>sched_t sched_g.
               map_of (teacher_schedules st') (teacher c) = Some sched_t \<and> c \<in> fst ` set sched_t \<and>
               map_of (student_schedules st') (student_group c) = Some sched_g \<and>
               c \<in> fst ` set sched_g"
    by blast
qed

theorem schedules_sorted_by_start_time_witness:
  "optimize_schedules
     ((colored [mk_course ''A'' ''T1'' ''G1'' ''CS'', mk_course ''B'' ''T1'' ''G2'' ''CS'',
                mk_course ''C'' ''T3'' ''G3'' ''EE'']
        [mk_slot ''Monday'' 28800000000 32400000000, mk_slot ''Monday'' 32400000000 36000000000]
        [mk_room ''R1'' ''CS''] [(''A'', 0), (''B'', 1), (''C'', 0)])
        \<lparr>room_assignments := [(''A'', ''R1''), (''B'', ''R1'')]\<rparr>) =
   Inr ((colored [mk_course ''A'' ''T1'' ''G1'' ''CS'', mk_course ''B'' ''T1'' ''G2'' ''CS'',
                mk_course ''C'' ''T3'' ''G3'' ''EE'']
        [mk_slot ''Monday'' 28800000000 32400000000, mk_slot ''Monday'' 32400000000 36000000000]
        [mk_room ''R1'' ''CS''] [(''A'', 0), (''B'', 1), (''C'', 0)])
        \<lparr>room_assignments := [(''A'', ''R1''), (''B'', ''R1'')],
         teacher_schedules :=
           [(''T1'',
             [(mk_course ''A'' ''T1'' ''G1'' ''CS'', mk_slot ''Monday'' 28800000000 32400000000,
               mk_room ''R1'' ''CS''),
              (mk_course ''B'' ''T1'' ''G2'' ''CS'', mk_slot ''Monday'' 32400000000 36000000000,
               mk_room ''R1'' ''CS'')])],
         student_schedules :=
           [(''G1'',
             [(mk_course ''A'' ''T1'' ''G1'' ''CS'', mk_slot ''Monday'' 28800000000 32400000000,
               mk_room ''R1'' ''CS'')]),
            (''G2'',
             [(mk_course ''B'' ''T1'' ''G2'' ''CS'', mk_slot ''Monday'' 32400000000 36000000000,
               mk_room ''R1'' ''CS'')])]\<rparr>) \<and>
   sorted (map entry_start
     [(mk_course ''A'' ''T1'' ''G1'' ''CS'', mk_slot ''Monday'' 28800000000 32400000000,
       mk_room ''R1'' ''CS''),
      (mk_course ''B'' ''T1'' ''G2'' ''CS'', mk_slot ''Monday'' 32400000000 36000000000,
       mk_room ''R1'' ''CS'')]) \<and>
   mk_course ''C'' ''T3'' ''G3'' ''EE'' \<notin> fst ` set
     [(mk_course ''A'' ''T1'' ''G1'' ''CS'', mk_slot ''Monday'' 28800000000 32400000000,
       mk_room ''R1'' ''CS''),
      (mk_course ''B'' ''T1'' ''G2'' ''CS'', mk_slot ''Monday'' 32400000000 36000000000,
       mk_room ''R1'' ''CS'')]"
  (is "optimize_schedules ?st = Inr ?st' \<and> sorted (map entry_start ?sched) \<and> ?c \<notin> _")
proof -
  have t: "teacher_schedules ?st = []" and g: "student_schedules ?st = []"
    by (simp_all add: load_eq build_conflict_graph_def)
  have run: "optimize_schedules ?st = Inr ?st'"
    by code_simp
  have key: "map_of (teacher_schedules ?st') ''T1'' = Some ?sched"
    by simp
  have none: "map_of (room_assignments ?st) (course_id ?c) = None"
    by simp
  from schedules_sorted_by_start_time [OF t g run]
  have "\<forall>key sched.
            map_of (teacher_schedules ?st') key = Some sched \<or>
            map_of (student_schedules ?st') key = Some sched \<longrightarrow>
            sorted (map entry_start sched) \<and>
            (\<forall>as a bs b zs. sched = as @ a # bs @ b # zs \<and> entry_start a = entry_start b \<longrightarrow>
               (\<exists>as' bs' zs'. courses ?st = as' @ fst a # bs' @ fst b # zs')) \<and>
            (\<forall>c ts r. (c, ts, r) \<in> set sched \<longrightarrow>
               c \<in> set (courses ?st) \<and>
               map_of (room_assignments ?st) (course_id c) = Some (room_id r) \<and>
               slot_of ?st (course_id c) = Inr ts) \<and>
            (\<forall>c. map_of (room_assignments ?st) (course_id c) = None \<longrightarrow> c \<notin> fst ` set sched)"
    by (rule conjunct1)
  from this [rule_format, of "''T1''" ?sched] key
  have s: "sorted (map entry_start ?sched)"
    and skip: "\<forall>c. map_of (room_assignments ?st) (course_id c) = None \<longrightarrow> c \<notin> fst ` set ?sched"
    by blast+
  from skip none have "?c \<notin> fst ` set ?sched"
    by blast
  with run s show ?thesis
    by blast
qed

text \<open>Four courses of one teacher. The Tuesday 08:00 session is listed before the Monday
  09:00 session, and of the two sessions that start Monday 08:00 the one registered first
  comes first, although its id is the greater: the schedule is not in the order the claim
  words.\<close>

theorem schedule_order_counterexample:
  "teacher_schedule_of (generate_timetable (load
      [mk_course ''C2'' ''T1'' ''G1'' ''CS'', mk_course ''C1'' ''T1'' ''G2'' ''CS'',
       mk_course ''C3'' ''T1'' ''G3'' ''CS'', mk_course ''C4'' ''T1'' ''G4'' ''CS'']
      [mk_slot ''Monday'' 28800000000 32400000000, mk_slot ''Monday'' 28800000000 36000000000,
       mk_slot ''Tuesday'' 28800000000 32400000000, mk_slot ''Monday'' 32400000000 36000000000]
      [mk_room ''R1'' ''CS'', mk_room ''R2'' ''CS''])) ''T1'' =
   Some [(mk_course ''C2'' ''T1'' ''G1'' ''CS'', mk_slot ''Monday'' 28800000000 32400000000,
          mk_room ''R1'' ''CS''),
         (mk_course ''C1'' ''T1'' ''G2'' ''CS'', mk_slot ''Monday'' 28800000000 36000000000,
          mk_room ''R2'' ''CS''),
         (mk_course ''C3'' ''T1'' ''G3'' ''CS'', mk_slot ''Tuesday'' 28800000000 32400000000,
          mk_room ''R1'' ''CS''),
         (mk_course ''C4'' ''T1'' ''G4'' ''CS'', mk_slot ''Monday'' 32400000000 36000000000,
          mk_room ''R1'' ''CS'')] \<and>
   \<not> spec_sorted
        [(mk_course ''C2'' ''T1'' ''G1'' ''CS'', mk_slot ''Monday'' 28800000000 32400000000,
          mk_room ''R1'' ''CS''),
         (mk_course ''C1'' ''T1'' ''G2'' ''CS'', mk_slot ''Monday'' 28800000000 36000000000,
          mk_room ''R2'' ''CS''),
         (mk_course ''C3'' ''T1'' ''G3'' ''CS'', mk_slot ''Tuesday'' 28800000000 32400000000,
          mk_room ''R1'' ''CS''),
         (mk_course ''C4'' ''T1'' ''G4'' ''CS'', mk_slot ''Monday'' 32400000000 36000000000,
          mk_room ''R1'' ''CS'')] \<and>
   \<not> spec_entry_le
        (mk_course ''C2'' ''T1'' ''G1'' ''CS'', mk_slot ''Monday'' 28800000000 32400000000,
          mk_room ''R1'' ''CS'')
        (mk_course ''C1'' ''T1'' ''G2'' ''CS'', mk_slot ''Monday'' 28800000000 36000000000,
          mk_room ''R2'' ''CS'') \<and>
   \<not> spec_entry_le
        (mk_course ''C3'' ''T1'' ''G3'' ''CS'', mk_slot ''Tuesday'' 28800000000 32400000000,
          mk_room ''R1'' ''CS'')
        (mk_course ''C4'' ''T1'' ''G4'' ''CS'', mk_slot ''Monday'' 32400000000 36000000000,
          mk_room ''R1'' ''CS'')"
  by code_simp

end
